theory Spec2Isabelle
  imports Main "HOL-Library.Word"
begin

unbundle bit_operations_syntax

section \<open>Data model\<close>

text \<open>
  The scanner of \<^verbatim>\<open>gc/mark_sweep-inl.h\<close> reads a heap of objects through
  accessor methods of \<^verbatim>\<open>mirror::Object\<close>, \<^verbatim>\<open>mirror::Class\<close>,
  \<^verbatim>\<open>mirror::Field\<close> and \<^verbatim>\<open>mirror::ObjectArray\<close>. Objects are identified by
  their address; a C++ pointer is an optional address, \<open>None\<close> being \<^verbatim>\<open>NULL\<close>.
  The runtime of this revision targets 32-bit platforms, so \<^verbatim>\<open>size_t\<close> and the
  value wrapped by \<^verbatim>\<open>MemberOffset\<close> are 32-bit words, as \<^verbatim>\<open>uint32_t\<close> and
  \<^verbatim>\<open>int32_t\<close> are; an \<^verbatim>\<open>int32_t\<close> is read with \<open>sint\<close> and compared with
  \<open><s\<close>.
\<close>

type_synonym addr = nat
type_synonym ptr = "addr option"
type_synonym uint32_t = "32 word"
type_synonym int32_t = "32 word"
type_synonym size_t = "32 word"
type_synonym MemberOffset = "32 word"

text \<open>
  The heap as the scanner sees it: one function per accessor the code calls. The
  accessors of a class are indexed by the address of the class object, those of a field
  descriptor by the address of the \<^verbatim>\<open>mirror::Field\<close>. \<open>IsMarked\<close> is the query of
  the external mark bitmap and \<open>GetJavaLangClass\<close> the static
  \<^verbatim>\<open>mirror::Class::GetJavaLangClass()\<close>.
\<close>

record heap =
  GetClass :: "addr \<Rightarrow> ptr"
  GetFieldObject :: "addr \<Rightarrow> MemberOffset \<Rightarrow> ptr"
  IsMarked :: "addr \<Rightarrow> bool"
  GetJavaLangClass :: ptr
  GetReferenceInstanceOffsets :: "addr \<Rightarrow> uint32_t"
  GetReferenceStaticOffsets :: "addr \<Rightarrow> uint32_t"
  GetSuperClass :: "addr \<Rightarrow> ptr"
  IsArrayClass :: "addr \<Rightarrow> bool"
  IsObjectArrayClass :: "addr \<Rightarrow> bool"
  IsReferenceClass :: "addr \<Rightarrow> bool"
  NumReferenceStaticFields :: "addr \<Rightarrow> size_t"
  NumReferenceInstanceFields :: "addr \<Rightarrow> size_t"
  GetStaticField :: "addr \<Rightarrow> size_t \<Rightarrow> ptr"
  GetInstanceField :: "addr \<Rightarrow> size_t \<Rightarrow> ptr"
  GetOffset :: "addr \<Rightarrow> MemberOffset"
  GetLength :: "addr \<Rightarrow> int32_t"
  GetWithoutChecks :: "addr \<Rightarrow> int32_t \<Rightarrow> ptr"

text \<open>
  The compile-time constants and macros the code uses and whose definitions are in
  headers outside this file are parameters of the model: the two build flags, the
  walk-super sentinel, the mapping \<^verbatim>\<open>CLASS_OFFSET_FROM_CLZ\<close> from a leading-zero count
  to a field offset, \<^verbatim>\<open>mirror::Object::ClassOffset()\<close>,
  \<^verbatim>\<open>sizeof(mirror::Object*)\<close> and \<^verbatim>\<open>mirror::Array::DataOffset\<close>.
\<close>

record build =
  kIsDebugBuild :: bool
  kCountScannedTypes :: bool
  CLASS_WALK_SUPER :: uint32_t
  CLASS_OFFSET_FROM_CLZ :: "nat \<Rightarrow> MemberOffset"
  ClassOffset :: MemberOffset
  sizeof_Object_ptr :: size_t
  DataOffset :: "size_t \<Rightarrow> MemberOffset"

text \<open>
  What a scan changes: the three instrumentation counters of \<^verbatim>\<open>MarkSweep\<close>, the
  bookkeeping of the visitor (any type \<open>'v\<close>), the objects handed to the
  deferred-reference hook (oldest first) and the number of heap-space dumps written.
  \<open>java_lang_Class\<close> is the collector's cached pointer to the meta-class; no scan
  assigns it. The members \<^verbatim>\<open>java_lang_Class_\<close>, \<^verbatim>\<open>class_count_\<close>,
  \<^verbatim>\<open>array_count_\<close> and \<^verbatim>\<open>other_count_\<close> lose their trailing underscore here.
\<close>

record 'v state =
  java_lang_Class :: ptr
  class_count :: size_t
  array_count :: size_t
  other_count :: size_t
  visited :: 'v
  delayed :: "ptr list"
  spaces_dumped :: nat

text \<open>
  A scan ends normally (\<open>Inr\<close>, the final state) or kills the process (\<open>Inl\<close>, the
  reason and the state reached): a failed \<^verbatim>\<open>DCHECK\<close>, the \<^verbatim>\<open>LOG(FATAL)\<close> of
  \<^verbatim>\<open>ScanObjectVisit\<close>, or a method called through a \<^verbatim>\<open>NULL\<close> pointer. The walk
  up the superclass chain need not end on an arbitrary heap, so the functions that may
  reach it return an option, \<open>None\<close> for a scan that never returns.
\<close>

datatype abort =
    CheckFailed
  | FatalScanningUnmarkedObject addr
  | NullPointerDereference

type_synonym 'v result = "(abort \<times> 'v state) + 'v state"

text \<open>
  The visitor is called as \<^verbatim>\<open>visitor(obj, ref, offset, is_static)\<close>; it works on its
  own bookkeeping and does not write to the heap being scanned.
\<close>

type_synonym 'v visitor = "ptr \<Rightarrow> ptr \<Rightarrow> MemberOffset \<Rightarrow> bool \<Rightarrow> 'v \<Rightarrow> 'v"

definition call_visitor ::
  "'v visitor \<Rightarrow> ptr \<Rightarrow> ptr \<Rightarrow> MemberOffset \<Rightarrow> bool \<Rightarrow> 'v state \<Rightarrow> 'v state" where
  "call_visitor visitor obj ref offset is_static s =
     s\<lparr>visited := visitor obj ref offset is_static (visited s)\<rparr>"

section \<open>Macros and collaborators outside the file\<close>

text \<open>
  Modelled from the spec: \<^verbatim>\<open>CLZ\<close> is the count-leading-zeros primitive on the 32-bit
  encoding (its definition is in a header outside this file). \<open>clz_from n x\<close> counts
  the zero bits of \<open>x\<close> below position \<open>n\<close>, from position \<open>n - 1\<close> downwards, up to
  the first set bit.
\<close>

fun clz_from :: "nat \<Rightarrow> uint32_t \<Rightarrow> nat" where
  "clz_from 0 x = 0"
| "clz_from (Suc n) x = (if bit x n then 0 else Suc (clz_from n x))"

definition CLZ :: "uint32_t \<Rightarrow> nat" where
  "CLZ x = clz_from 32 x"

text \<open>
  Modelled from the spec: \<^verbatim>\<open>CLASS_HIGH_BIT\<close> is the most significant bit of the 32-bit
  encoding (the macro is defined in a header outside this file).
\<close>

definition CLASS_HIGH_BIT :: uint32_t where
  "CLASS_HIGH_BIT = push_bit 31 1"

text \<open>
  Modelled from the spec: \<^verbatim>\<open>DCHECK\<close> and \<^verbatim>\<open>DCHECK_EQ\<close> are macros defined in a header
  outside this file. An assertion is compiled in debug builds only, and one that does not
  hold kills the process. \<open>DCHECK_fails B c\<close> says that the assertion of the condition
  \<open>c\<close> does so.
\<close>

definition DCHECK_fails :: "build \<Rightarrow> bool \<Rightarrow> bool" where
  "DCHECK_fails B c \<longleftrightarrow> kIsDebugBuild B \<and> \<not> c"

declare DCHECK_fails_def [simp]

text \<open>
  \<^verbatim>\<open>obj->AsClass()\<close> and \<^verbatim>\<open>obj->AsObjectArray<mirror::Object>()\<close> are casts: the
  address is unchanged.
\<close>

definition AsClass :: "ptr \<Rightarrow> ptr" where
  "AsClass obj = obj"

definition AsObjectArray :: "ptr \<Rightarrow> ptr" where
  "AsObjectArray obj = obj"

text \<open>
  Modelled from the spec: \<^verbatim>\<open>DelayReferenceReferent\<close> is the deferred-reference hook
  of the collector; its body is outside this file. The model records each invocation.
\<close>

definition DelayReferenceReferent :: "ptr \<Rightarrow> 'v state \<Rightarrow> 'v state" where
  "DelayReferenceReferent obj s = s\<lparr>delayed := delayed s @ [obj]\<rparr>"

section \<open>Bit scanning and loop counters\<close>

text \<open>
  The loops of the scanner are recursive functions; their termination rests on the
  following facts about the leading-zero count, the bit cleared by one step of the
  bitmap loop, and the increments of the two kinds of loop index.
\<close>

lemma clz_from_top:
  "\<exists>k<n. bit x k \<Longrightarrow>
     clz_from n x < n \<and> bit x (n - 1 - clz_from n x) \<and>
     (\<forall>k<n. n - 1 - clz_from n x < k \<longrightarrow> \<not> bit x k)"
proof (induction n)
  case 0
  then show ?case by simp
next
  case (Suc n)
  show ?case
  proof (cases "bit x n")
    case True
    then show ?thesis by auto
  next
    case False
    with Suc.prems have "\<exists>k<n. bit x k"
      by (metis less_Suc_eq)
    from Suc.IH [OF this] False show ?thesis
      by (auto simp: less_Suc_eq)
  qed
qed

lemma CLZ_top:
  assumes "x \<noteq> 0"
  shows "CLZ x < 32" and "bit x (31 - CLZ x)" and "\<And>k. 31 - CLZ x < k \<Longrightarrow> \<not> bit x k"
proof -
  from assms obtain k where k: "bit x k"
    by (auto simp: bit_eq_iff)
  then have "k < 32"
    using bit_imp_le_length [of x k] by simp
  with k have ex: "\<exists>k<32. bit x k" by blast
  from clz_from_top [OF ex] show "CLZ x < 32" and "bit x (31 - CLZ x)"
    by (simp_all add: CLZ_def)
  fix j assume j: "31 - CLZ x < j"
  show "\<not> bit x j"
  proof (cases "j < 32")
    case True
    with clz_from_top [OF ex] j show ?thesis by (simp add: CLZ_def)
  next
    case False
    then show ?thesis using bit_imp_le_length [of x j] by auto
  qed
qed

lemma bit_CLASS_HIGH_BIT: "bit CLASS_HIGH_BIT k \<longleftrightarrow> k = 31"
proof -
  have eq: "CLASS_HIGH_BIT = (2::uint32_t) ^ 31"
    unfolding CLASS_HIGH_BIT_def push_bit_eq_mult by (rule mult_1)
  show ?thesis
    unfolding eq bit_exp_iff possible_bit_word by auto
qed

lemma bit_CLASS_HIGH_BIT_shift:
  "c < 32 \<Longrightarrow> bit (drop_bit c CLASS_HIGH_BIT) k \<longleftrightarrow> k = 31 - c"
  by (auto simp: bit_drop_bit_eq bit_CLASS_HIGH_BIT)

lemma bit_clear_top:
  assumes "x \<noteq> 0"
  shows "bit (x AND NOT (drop_bit (CLZ x) CLASS_HIGH_BIT)) k \<longleftrightarrow> bit x k \<and> k \<noteq> 31 - CLZ x"
  using CLZ_top(1) [OF assms] bit_imp_le_length [of x k]
  by (auto simp: bit_and_iff bit_not_iff bit_CLASS_HIGH_BIT_shift)

lemma clear_top_less:
  assumes "x \<noteq> 0"
  shows "x AND NOT (drop_bit (CLZ x) CLASS_HIGH_BIT) < x"
proof -
  let ?y = "x AND NOT (drop_bit (CLZ x) CLASS_HIGH_BIT)"
  have "?y \<le> x"
    by (rule word_and_le2)
  moreover have "?y \<noteq> x"
    using bit_clear_top [OF assms, of "31 - CLZ x"] CLZ_top(2) [OF assms] by auto
  ultimately show ?thesis by simp
qed

section \<open>The scanner\<close>

text \<open>
  The fast path of \<^verbatim>\<open>VisitFieldsReferences\<close>:
  \<^verbatim>\<open>while (ref_offsets != 0) {
    size_t right_shift = CLZ(ref_offsets);
    MemberOffset field_offset = CLASS_OFFSET_FROM_CLZ(right_shift);
    const mirror::Object* ref = obj->GetFieldObject<const mirror::Object*>(field_offset, false);
    visitor(obj, ref, field_offset, is_static);
    ref_offsets &= ~(CLASS_HIGH_BIT >> right_shift);
  }\<close>
\<close>

function VisitFieldsReferences_while ::
  "build \<Rightarrow> heap \<Rightarrow> ptr \<Rightarrow> uint32_t \<Rightarrow> bool \<Rightarrow> 'v visitor \<Rightarrow> 'v state \<Rightarrow> 'v result" where
  "VisitFieldsReferences_while B h obj ref_offsets is_static visitor s =
     (if ref_offsets \<noteq> 0 then
        let right_shift = CLZ ref_offsets;
            field_offset = CLASS_OFFSET_FROM_CLZ B right_shift
        in case obj of
             None \<Rightarrow> Inl (NullPointerDereference, s)
           | Some a \<Rightarrow>
               let ref = GetFieldObject h a field_offset;
                   s' = call_visitor visitor obj ref field_offset is_static s
               in VisitFieldsReferences_while B h obj
                    (ref_offsets AND NOT (drop_bit right_shift CLASS_HIGH_BIT))
                    is_static visitor s'
      else Inr s)"
  by pat_completeness auto
termination
  by (relation "measure (\<lambda>(B, h, obj, ref_offsets, is_static, visitor, s). unat ref_offsets)")
    (auto simp: clear_top_less unat_mono)

declare VisitFieldsReferences_while.simps [simp del]

text \<open>
  The inner loop of the slow path, over the reference fields of one class:
  \<^verbatim>\<open>for (size_t i = 0; i < num_reference_fields; ++i) {
    mirror::Field* field = (is_static ? klass->GetStaticField(i) : klass->GetInstanceField(i));
    MemberOffset field_offset = field->GetOffset();
    const mirror::Object* ref = obj->GetFieldObject<const mirror::Object*>(field_offset, false);
    visitor(obj, ref, field_offset, is_static);
  }\<close>
  The index is a \<^verbatim>\<open>size_t\<close>; below the bound its increment does not wrap.
\<close>

lemma unat_Suc_less:
  fixes i n :: size_t
  assumes "i < n"
  shows "unat (i + 1) = Suc (unat i)"
proof -
  have "unat i < unat n"
    using assms by (simp add: word_less_nat_alt)
  moreover have "unat n < 2 ^ 32"
    using unsigned_less [of n] by simp
  ultimately have "unat i + unat (1::size_t) < 2 ^ LENGTH(32)"
    by simp
  then have "unat (i + 1) = unat i + unat (1::size_t)"
    by (simp only: unat_add_lem)
  then show ?thesis by simp
qed

function VisitFieldsReferences_fields ::
  "heap \<Rightarrow> ptr \<Rightarrow> bool \<Rightarrow> addr \<Rightarrow> size_t \<Rightarrow> size_t \<Rightarrow> 'v visitor \<Rightarrow> 'v state \<Rightarrow> 'v result" where
  "VisitFieldsReferences_fields h obj is_static klass num_reference_fields i visitor s =
     (if i < num_reference_fields then
        let field = (if is_static then GetStaticField h klass i else GetInstanceField h klass i)
        in case field of
             None \<Rightarrow> Inl (NullPointerDereference, s)
           | Some f \<Rightarrow>
               let field_offset = GetOffset h f
               in (case obj of
                     None \<Rightarrow> Inl (NullPointerDereference, s)
                   | Some a \<Rightarrow>
                       let ref = GetFieldObject h a field_offset;
                           s' = call_visitor visitor obj ref field_offset is_static s
                       in VisitFieldsReferences_fields h obj is_static klass num_reference_fields
                            (i + 1) visitor s')
      else Inr s)"
  by pat_completeness auto
termination
  by (relation "measure (\<lambda>(h, obj, is_static, klass, num_reference_fields, i, visitor, s).
        unat num_reference_fields - unat i)")
    (auto simp: unat_Suc_less word_less_nat_alt)

declare VisitFieldsReferences_fields.simps [simp del]

text \<open>
  The outer loop of the slow path:
  \<^verbatim>\<open>for (klass = ...; klass != NULL; klass = is_static ? NULL : klass->GetSuperClass())\<close>.
  It runs for as long as the chain of superclasses does, so it is a partial function.
\<close>

partial_function (option) VisitFieldsReferences_klasses ::
  "heap \<Rightarrow> ptr \<Rightarrow> bool \<Rightarrow> ptr \<Rightarrow> 'v visitor \<Rightarrow> 'v state \<Rightarrow> 'v result option" where
  "VisitFieldsReferences_klasses h obj is_static klass visitor s =
     (case klass of
        None \<Rightarrow> Some (Inr s)
      | Some k \<Rightarrow>
          let num_reference_fields =
                (if is_static then NumReferenceStaticFields h k
                 else NumReferenceInstanceFields h k)
          in case VisitFieldsReferences_fields h obj is_static k num_reference_fields 0 visitor s of
               Inl e \<Rightarrow> Some (Inl e)
             | Inr s' \<Rightarrow>
                 VisitFieldsReferences_klasses h obj is_static
                   (if is_static then None else GetSuperClass h k) visitor s')"

declare VisitFieldsReferences_klasses.simps [code]

text \<open>
  \<^verbatim>\<open>VisitFieldsReferences\<close>: the bitmap loop unless the encoding is the sentinel;
  otherwise the walk, which starts at \<^verbatim>\<open>obj->AsClass()\<close> for static fields and at
  \<^verbatim>\<open>obj->GetClass()\<close> for instance fields.
\<close>

definition VisitFieldsReferences ::
  "build \<Rightarrow> heap \<Rightarrow> ptr \<Rightarrow> uint32_t \<Rightarrow> bool \<Rightarrow> 'v visitor \<Rightarrow> 'v state \<Rightarrow> 'v result option" where
  "VisitFieldsReferences B h obj ref_offsets is_static visitor s =
     (if ref_offsets \<noteq> CLASS_WALK_SUPER B
      then Some (VisitFieldsReferences_while B h obj ref_offsets is_static visitor s)
      else if is_static
        then VisitFieldsReferences_klasses h obj is_static (AsClass obj) visitor s
        else case obj of
               None \<Rightarrow> Some (Inl (NullPointerDereference, s))
             | Some a \<Rightarrow> VisitFieldsReferences_klasses h obj is_static (GetClass h a) visitor s)"


text \<open>
  The three wrappers. In a release build the pointer a \<^verbatim>\<open>DCHECK\<close> guards is
  dereferenced unchecked.
\<close>

definition VisitInstanceFieldsReferences ::
  "build \<Rightarrow> heap \<Rightarrow> ptr \<Rightarrow> ptr \<Rightarrow> 'v visitor \<Rightarrow> 'v state \<Rightarrow> 'v result option" where
  "VisitInstanceFieldsReferences B h klass obj visitor s =
     (if DCHECK_fails B (obj \<noteq> None) then Some (Inl (CheckFailed, s))
      else if DCHECK_fails B (klass \<noteq> None) then Some (Inl (CheckFailed, s))
      else case klass of
             None \<Rightarrow> Some (Inl (NullPointerDereference, s))
           | Some k \<Rightarrow>
               VisitFieldsReferences B h obj (GetReferenceInstanceOffsets h k) False visitor s)"

definition VisitStaticFieldsReferences ::
  "build \<Rightarrow> heap \<Rightarrow> ptr \<Rightarrow> 'v visitor \<Rightarrow> 'v state \<Rightarrow> 'v result option" where
  "VisitStaticFieldsReferences B h klass visitor s =
     (if DCHECK_fails B (klass \<noteq> None) then Some (Inl (CheckFailed, s))
      else case klass of
             None \<Rightarrow> Some (Inl (NullPointerDereference, s))
           | Some k \<Rightarrow>
               VisitFieldsReferences B h klass (GetReferenceStaticOffsets h k) True visitor s)"

definition VisitClassReferences ::
  "build \<Rightarrow> heap \<Rightarrow> ptr \<Rightarrow> ptr \<Rightarrow> 'v visitor \<Rightarrow> 'v state \<Rightarrow> 'v result option" where
  "VisitClassReferences B h klass obj visitor s =
     (case VisitInstanceFieldsReferences B h klass obj visitor s of
        None \<Rightarrow> None
      | Some (Inl e) \<Rightarrow> Some (Inl e)
      | Some (Inr s') \<Rightarrow> VisitStaticFieldsReferences B h (AsClass obj) visitor s')"

text \<open>
  Modelled from the spec: \<^verbatim>\<open>VisitOtherReferences\<close> is called by both entry points
  and defined in a header outside this file; for an ordinary instance the scanner
  visits the instance fields.
\<close>

definition VisitOtherReferences ::
  "build \<Rightarrow> heap \<Rightarrow> ptr \<Rightarrow> ptr \<Rightarrow> 'v visitor \<Rightarrow> 'v state \<Rightarrow> 'v result option" where
  "VisitOtherReferences B h klass obj visitor s =
     VisitInstanceFieldsReferences B h klass obj visitor s"

text \<open>
  \<^verbatim>\<open>VisitObjectArrayReferences\<close>:
  \<^verbatim>\<open>const int32_t length = array->GetLength();
  for (int32_t i = 0; i < length; ++i) {
    const mirror::Object* element = array->GetWithoutChecks(i);
    const size_t width = sizeof(mirror::Object*);
    MemberOffset offset = MemberOffset(i * width + mirror::Array::DataOffset(width).Int32Value());
    visitor(array, element, offset, false);
  }\<close>
  The index is an \<^verbatim>\<open>int32_t\<close> compared as signed; below the bound its increment
  does not overflow. The offset is computed in \<^verbatim>\<open>size_t\<close>.
\<close>

lemma sint_Suc_sless:
  fixes i n :: int32_t
  assumes "i <s n"
  shows "sint (i + 1) = sint i + 1"
proof -
  have "sint i < sint n"
    using assms by (simp add: word_sless_alt)
  moreover have "sint n < 2 ^ 31" and "- (2 ^ 31) \<le> sint i"
    using sint_lt [of n] sint_ge [of i] by simp_all
  ultimately have "- (2 ^ 31) \<le> sint i + 1" and "sint i + 1 < 2 ^ 31"
    by simp_all
  then have "signed_take_bit 31 (sint i + 1) = sint i + 1"
    by (simp add: signed_take_bit_int_eq_self)
  then show ?thesis
    by (simp add: sint_word_ariths)
qed

function VisitObjectArrayReferences_for ::
  "build \<Rightarrow> heap \<Rightarrow> ptr \<Rightarrow> int32_t \<Rightarrow> int32_t \<Rightarrow> 'v visitor \<Rightarrow> 'v state \<Rightarrow> 'v result" where
  "VisitObjectArrayReferences_for B h array len i visitor s =
     (if i <s len then
        case array of
          None \<Rightarrow> Inl (NullPointerDereference, s)
        | Some a \<Rightarrow>
            let element = GetWithoutChecks h a i;
                width = sizeof_Object_ptr B;
                offset = i * width + DataOffset B width;
                s' = call_visitor visitor array element offset False s
            in VisitObjectArrayReferences_for B h array len (i + 1) visitor s'
      else Inr s)"
  by pat_completeness auto
termination
  by (relation "measure (\<lambda>(B, h, array, len, i, visitor, s). nat (sint len - sint i))")
    (auto simp: sint_Suc_sless word_sless_alt)

declare VisitObjectArrayReferences_for.simps [simp del]

definition VisitObjectArrayReferences ::
  "build \<Rightarrow> heap \<Rightarrow> ptr \<Rightarrow> 'v visitor \<Rightarrow> 'v state \<Rightarrow> 'v result" where
  "VisitObjectArrayReferences B h array visitor s =
     (case array of
        None \<Rightarrow> Inl (NullPointerDereference, s)
      | Some a \<Rightarrow> VisitObjectArrayReferences_for B h array (GetLength h a) 0 visitor s)"

text \<open>
  The two entry points. \<^verbatim>\<open>ScanObjectVisit\<close> checks in a debug build that the object
  is marked, counts the kind of object when \<^verbatim>\<open>kCountScannedTypes\<close> is set, and hands
  an instance of a reference class to \<^verbatim>\<open>DelayReferenceReferent\<close> after its fields
  have been visited. \<^verbatim>\<open>VisitObjectReferences\<close> compares the class with
  \<^verbatim>\<open>mirror::Class::GetJavaLangClass()\<close> instead of the member
  \<^verbatim>\<open>java_lang_Class_\<close>.
\<close>

definition ScanObjectVisit ::
  "build \<Rightarrow> heap \<Rightarrow> ptr \<Rightarrow> 'v visitor \<Rightarrow> 'v state \<Rightarrow> 'v result option" where
  "ScanObjectVisit B h obj visitor s =
     (if DCHECK_fails B (obj \<noteq> None) then Some (Inl (CheckFailed, s))
      else case obj of
        None \<Rightarrow> Some (Inl (NullPointerDereference, s))
      | Some a \<Rightarrow>
          if kIsDebugBuild B \<and> \<not> IsMarked h a
          then Some (Inl (FatalScanningUnmarkedObject a,
                          s\<lparr>spaces_dumped := Suc (spaces_dumped s)\<rparr>))
          else
            let klass = GetClass h a in
            if DCHECK_fails B (klass \<noteq> None) then Some (Inl (CheckFailed, s))
            else if klass = java_lang_Class s then
              (if DCHECK_fails B
                    (case klass of None \<Rightarrow> True | Some k \<Rightarrow> GetClass h k = java_lang_Class s)
               then Some (Inl (CheckFailed, s))
               else
                 let s1 = (if kCountScannedTypes B
                           then s\<lparr>class_count := class_count s + 1\<rparr> else s)
                 in VisitClassReferences B h klass obj visitor s1)
            else
              (case klass of
                 None \<Rightarrow> Some (Inl (NullPointerDereference, s))
               | Some k \<Rightarrow>
                   if IsArrayClass h k then
                     let s1 = (if kCountScannedTypes B
                               then s\<lparr>array_count := array_count s + 1\<rparr> else s);
                         s2 = call_visitor visitor obj klass (ClassOffset B) False s1
                     in if IsObjectArrayClass h k
                        then Some (VisitObjectArrayReferences B h (AsObjectArray obj) visitor s2)
                        else Some (Inr s2)
                   else
                     let s1 = (if kCountScannedTypes B
                               then s\<lparr>other_count := other_count s + 1\<rparr> else s)
                     in (case VisitOtherReferences B h klass obj visitor s1 of
                           None \<Rightarrow> None
                         | Some (Inl e) \<Rightarrow> Some (Inl e)
                         | Some (Inr s2) \<Rightarrow>
                             if IsReferenceClass h k
                             then Some (Inr (DelayReferenceReferent obj s2))
                             else Some (Inr s2))))"

definition VisitObjectReferences ::
  "build \<Rightarrow> heap \<Rightarrow> ptr \<Rightarrow> 'v visitor \<Rightarrow> 'v state \<Rightarrow> 'v result option" where
  "VisitObjectReferences B h obj visitor s =
     (if DCHECK_fails B (obj \<noteq> None) then Some (Inl (CheckFailed, s))
      else case obj of
        None \<Rightarrow> Some (Inl (NullPointerDereference, s))
      | Some a \<Rightarrow>
          if DCHECK_fails B (GetClass h a \<noteq> None) then Some (Inl (CheckFailed, s))
          else
            let klass = GetClass h a in
            if DCHECK_fails B (klass \<noteq> None) then Some (Inl (CheckFailed, s))
            else if klass = GetJavaLangClass h then
              (if DCHECK_fails B
                    (case klass of None \<Rightarrow> True | Some k \<Rightarrow> GetClass h k = GetJavaLangClass h)
               then Some (Inl (CheckFailed, s))
               else VisitClassReferences B h klass obj visitor s)
            else
              (case klass of
                 None \<Rightarrow> Some (Inl (NullPointerDereference, s))
               | Some k \<Rightarrow>
                   if IsArrayClass h k then
                     let s1 = call_visitor visitor obj klass (ClassOffset B) False s
                     in if IsObjectArrayClass h k
                        then Some (VisitObjectArrayReferences B h (AsObjectArray obj) visitor s1)
                        else Some (Inr s1)
                   else VisitOtherReferences B h klass obj visitor s))"

section \<open>The scanner as a program on the heap\<close>

text \<open>
  Above, the scanner takes the heap as a value. To say what a scan does to the heap, the
  same code is read here as a program on a machine that holds the heap, its \<open>store\<close>,
  next to the collector: every accessor reads the store of the machine the statement
  runs on, and every function returns the machine it reached, so that a statement that
  wrote to the heap would show in the result. The functions carry the suffix \<open>_st\<close>.
  The visitor receives \<^verbatim>\<open>const mirror::Object*\<close> pointers and updates its bookkeeping.
\<close>

record 'v machine =
  store :: heap
  collector :: "'v state"

type_synonym 'v outcome = "(abort \<times> 'v machine) + 'v machine"

definition call_visitor_st ::
  "'v visitor \<Rightarrow> ptr \<Rightarrow> ptr \<Rightarrow> MemberOffset \<Rightarrow> bool \<Rightarrow> 'v machine \<Rightarrow> 'v machine" where
  "call_visitor_st visitor obj ref offset is_static m =
     m\<lparr>collector := call_visitor visitor obj ref offset is_static (collector m)\<rparr>"


















text \<open>
  \<open>on_store h r\<close> is the result \<open>r\<close> of a function that takes the heap as a value, put
  on the store \<open>h\<close>; \<open>reached\<close> is the machine in which a run ended and \<open>seen_st\<close> keeps
  the reason of an abort and the bookkeeping of the visitor. \<open>on_collector \<phi>\<close> applies
  \<open>\<phi>\<close> to the collector of a machine and \<open>carry_st \<phi>\<close> to the collector of an outcome.
\<close>

definition on_store :: "heap \<Rightarrow> 'v result \<Rightarrow> 'v outcome" where
  "on_store h r =
     map_sum (apsnd (\<lambda>s. \<lparr>store = h, collector = s\<rparr>)) (\<lambda>s. \<lparr>store = h, collector = s\<rparr>) r"

definition reached :: "'v outcome \<Rightarrow> 'v machine" where
  "reached r = (case r of Inl (e, m) \<Rightarrow> m | Inr m \<Rightarrow> m)"

definition seen_st :: "'v outcome \<Rightarrow> (abort \<times> 'v) + 'v" where
  "seen_st r = map_sum (apsnd (\<lambda>m. visited (collector m))) (\<lambda>m. visited (collector m)) r"

definition on_collector :: "('a state \<Rightarrow> 'b state) \<Rightarrow> 'a machine \<Rightarrow> 'b machine" where
  "on_collector \<phi> m = \<lparr>store = store m, collector = \<phi> (collector m)\<rparr>"

definition carry_st :: "('a state \<Rightarrow> 'b state) \<Rightarrow> 'a outcome \<Rightarrow> 'b outcome" where
  "carry_st \<phi> r = map_sum (apsnd (on_collector \<phi>)) (on_collector \<phi>) r"

section \<open>Observing a scan\<close>

text \<open>
  One invocation of the visitor is the tuple of its four arguments. \<open>visit_all\<close>
  invokes a visitor on a list of such tuples, first to last; \<open>record_call\<close> is the
  visitor that keeps the list of the invocations it has received.
\<close>

type_synonym call = "ptr \<times> ptr \<times> MemberOffset \<times> bool"

definition visit_all :: "'v visitor \<Rightarrow> call list \<Rightarrow> 'v state \<Rightarrow> 'v state" where
  "visit_all visitor cs s =
     foldl (\<lambda>s (obj, ref, offset, is_static). call_visitor visitor obj ref offset is_static s) s cs"

definition record_call :: "call list visitor" where
  "record_call obj ref offset is_static cs = cs @ [(obj, ref, offset, is_static)]"

text \<open>
  The bit positions set in an encoding, most significant first, and the invocations the
  bitmap loop makes for them.
\<close>

definition set_bits_desc :: "uint32_t \<Rightarrow> nat list" where
  "set_bits_desc x = rev (filter (bit x) [0..<32])"

definition bitmap_calls :: "build \<Rightarrow> heap \<Rightarrow> addr \<Rightarrow> uint32_t \<Rightarrow> bool \<Rightarrow> call list" where
  "bitmap_calls B h a ref_offsets is_static =
     map (\<lambda>p. (Some a, GetFieldObject h a (CLASS_OFFSET_FROM_CLZ B (31 - p)),
               CLASS_OFFSET_FROM_CLZ B (31 - p), is_static))
       (set_bits_desc ref_offsets)"

text \<open>
  The slow path reads the reference fields of a class through its field descriptors.
  \<open>reference_fields\<close> is the list of descriptors of one class in index order,
  provided none of the pointers is \<^verbatim>\<open>NULL\<close>; \<open>field_call\<close> is the invocation
  made for one descriptor; \<open>super_chain h klass ks\<close> says that \<open>ks\<close> lists the classes
  from \<open>klass\<close> up to the root, the class without a superclass.
\<close>

definition klass_field :: "heap \<Rightarrow> bool \<Rightarrow> addr \<Rightarrow> size_t \<Rightarrow> ptr" where
  "klass_field h is_static k i =
     (if is_static then GetStaticField h k i else GetInstanceField h k i)"

definition reference_fields :: "heap \<Rightarrow> bool \<Rightarrow> addr \<Rightarrow> addr list option" where
  "reference_fields h is_static k =
     those (map (\<lambda>i. klass_field h is_static k (of_nat i))
       [0..<unat (if is_static then NumReferenceStaticFields h k
                  else NumReferenceInstanceFields h k)])"

definition field_call :: "heap \<Rightarrow> addr \<Rightarrow> bool \<Rightarrow> addr \<Rightarrow> call" where
  "field_call h a is_static f =
     (Some a, GetFieldObject h a (GetOffset h f), GetOffset h f, is_static)"

fun super_chain :: "heap \<Rightarrow> ptr \<Rightarrow> addr list \<Rightarrow> bool" where
  "super_chain h None ks = (ks = [])"
| "super_chain h (Some k) [] = False"
| "super_chain h (Some k) (k' # ks) = (k = k' \<and> super_chain h (GetSuperClass h k) ks)"

text \<open>
  The invocation \<^verbatim>\<open>VisitObjectArrayReferences\<close> makes for the element at index \<open>i\<close>.
\<close>

definition element_call :: "build \<Rightarrow> heap \<Rightarrow> addr \<Rightarrow> nat \<Rightarrow> call" where
  "element_call B h a i =
     (Some a, GetWithoutChecks h a (of_nat i),
      of_nat i * sizeof_Object_ptr B + DataOffset B (sizeof_Object_ptr B), False)"

text \<open>
  How a scan ended: \<open>final\<close> is the state reached, \<open>seen\<close> keeps the reason of an
  abort and the bookkeeping of the visitor only.
\<close>

definition final :: "'v result \<Rightarrow> 'v state" where
  "final r = (case r of Inl (e, s) \<Rightarrow> s | Inr s \<Rightarrow> s)"

definition seen :: "'v result \<Rightarrow> (abort \<times> 'v) + 'v" where
  "seen r = map_sum (apsnd visited) visited r"

text \<open>
  Two runs of the scanner are related by a map \<open>\<phi>\<close> between their states when every
  invocation of the visitor of the first run, mapped by \<open>\<phi>\<close>, is the invocation of the
  visitor of the second run with the same arguments. \<open>simulates_at\<close> asks this of the
  invocations for one object and one value of \<open>is_static\<close>, \<open>simulates\<close> of all.
  \<open>carry\<close> maps the result of a run, and \<open>collector_hom\<close> says that \<open>\<phi>\<close> commutes
  with what \<^verbatim>\<open>ScanObjectVisit\<close> itself does to the collector.
\<close>

definition simulates_at ::
  "('a state \<Rightarrow> 'b state) \<Rightarrow> 'a visitor \<Rightarrow> 'b visitor \<Rightarrow> ptr \<Rightarrow> bool \<Rightarrow> bool" where
  "simulates_at \<phi> v w obj is_static \<longleftrightarrow>
     (\<forall>ref offset s.
        \<phi> (call_visitor v obj ref offset is_static s) =
        call_visitor w obj ref offset is_static (\<phi> s))"

definition simulates :: "('a state \<Rightarrow> 'b state) \<Rightarrow> 'a visitor \<Rightarrow> 'b visitor \<Rightarrow> bool" where
  "simulates \<phi> v w \<longleftrightarrow> (\<forall>obj is_static. simulates_at \<phi> v w obj is_static)"

definition carry :: "('a state \<Rightarrow> 'b state) \<Rightarrow> 'a result \<Rightarrow> 'b result" where
  "carry \<phi> r = map_sum (apsnd \<phi>) \<phi> r"


text \<open>
  \<open>with_collector s t\<close> is \<open>t\<close> with everything but the bookkeeping of the visitor
  taken from \<open>s\<close>. \<open>fresh meta\<close> is a collector that has done nothing, with the
  recording visitor; \<open>replay visitor s t\<close> is the state \<open>s\<close> after the invocations,
  counts, deferred references and dumps recorded in \<open>t\<close>.
\<close>

definition with_collector :: "'a state \<Rightarrow> 'b state \<Rightarrow> 'b state" where
  "with_collector s t =
     t\<lparr>java_lang_Class := java_lang_Class s, class_count := class_count s,
       array_count := array_count s, other_count := other_count s,
       delayed := delayed s, spaces_dumped := spaces_dumped s\<rparr>"

definition fresh :: "ptr \<Rightarrow> call list state" where
  "fresh meta =
     \<lparr>java_lang_Class = meta, class_count = 0, array_count = 0, other_count = 0,
      visited = [], delayed = [], spaces_dumped = 0\<rparr>"


text \<open>
  The three kinds of object the entry points distinguish, by the tests they make in
  this order: the class is the meta-class \<open>meta\<close>, or else it is an array class, or
  else the object is an ordinary instance.
\<close>

datatype kind = ClassObject | ArrayObject | OtherObject

definition classify :: "ptr \<Rightarrow> heap \<Rightarrow> addr \<Rightarrow> kind" where
  "classify meta h k =
     (if Some k = meta then ClassObject
      else if IsArrayClass h k then ArrayObject
      else OtherObject)"

text \<open>
  The three instrumentation counters of a state, and the state after the count of one
  kind of object when \<^verbatim>\<open>kCountScannedTypes\<close> is set. \<open>reference_instance\<close> holds of a
  pointer to an ordinary instance of a class flagged \<^verbatim>\<open>IsReferenceClass\<close>.
\<close>

definition counts :: "'v state \<Rightarrow> size_t \<times> size_t \<times> size_t" where
  "counts s = (class_count s, array_count s, other_count s)"

definition count_kind :: "build \<Rightarrow> kind \<Rightarrow> 'v state \<Rightarrow> 'v state" where
  "count_kind B c s =
     (if kCountScannedTypes B
      then (case c of
              ClassObject \<Rightarrow> s\<lparr>class_count := class_count s + 1\<rparr>
            | ArrayObject \<Rightarrow> s\<lparr>array_count := array_count s + 1\<rparr>
            | OtherObject \<Rightarrow> s\<lparr>other_count := other_count s + 1\<rparr>)
      else s)"

definition reference_instance :: "ptr \<Rightarrow> heap \<Rightarrow> ptr \<Rightarrow> bool" where
  "reference_instance meta h obj =
     (case obj of
        None \<Rightarrow> False
      | Some a \<Rightarrow>
          (case GetClass h a of
             None \<Rightarrow> False
           | Some k \<Rightarrow> classify meta h k = OtherObject \<and> IsReferenceClass h k))"




text \<open>
  \<open>after t u\<close> is the recording state \<open>t\<close> followed by the invocations recorded in
  \<open>u\<close>.
\<close>

definition after :: "call list state \<Rightarrow> call list state \<Rightarrow> call list state" where
  "after t u = (with_collector t u)\<lparr>visited := visited t @ visited u\<rparr>"

subsection \<open>A small heap\<close>

text \<open>
  A debug build with counting, the sentinel 3 and four bytes per leading zero, and a heap
  with the meta-class at address 1, \<^verbatim>\<open>Object\<close> at 2, a class \<^verbatim>\<open>Node\<close> at 3 with
  reference fields at offsets 8 and 16 and one static reference field, a \<^verbatim>\<open>Node\<close> at
  4, a class at 7 whose layout has no bitmap, an instance of it at 8, a class of object
  arrays at 9, an array of three elements at 10, a reference class at 11 and an instance
  of it at 12. The object at 6 is not marked. \<open>demo_state x\<close> is a collector that has
  scanned nothing yet, with \<open>x\<close> as the bookkeeping of the visitor.
\<close>

definition demo_build :: build where
  "demo_build =
     \<lparr>kIsDebugBuild = True, kCountScannedTypes = True, CLASS_WALK_SUPER = 3,
      CLASS_OFFSET_FROM_CLZ = (\<lambda>rshift. of_nat rshift * 4), ClassOffset = 0,
      sizeof_Object_ptr = 4, DataOffset = (\<lambda>width. 12)\<rparr>"

definition demo_heap :: heap where
  "demo_heap =
     \<lparr>GetClass = (\<lambda>a. if a = 1 \<or> a = 2 \<or> a = 3 \<or> a = 7 \<or> a = 9 \<or> a = 11 then Some 1
                     else if a = 4 then Some 3
                     else if a = 8 then Some 7
                     else if a = 10 then Some 9
                     else if a = 12 then Some 11
                     else Some 2),
      GetFieldObject = (\<lambda>a offset.
                     if offset = 0 then
                       (if a = 4 then Some 3 else if a = 8 then Some 7
                        else if a = 12 then Some 11 else Some 1)
                     else if a = 4 \<and> offset = 8 then Some 5
                     else if a = 4 \<and> offset = 16 then Some 6
                     else if a = 8 \<and> offset = 20 then Some 5
                     else if a = 12 \<and> offset = 8 then Some 6
                     else if a = 3 \<and> offset = 40 then Some 4
                     else None),
      IsMarked = (\<lambda>a. a \<noteq> 6),
      GetJavaLangClass = Some 1,
      GetReferenceInstanceOffsets = (\<lambda>k. if k = 1 then 0x80000000
                     else if k = 2 then 0x80000000
                     else if k = 3 then 0x28000000
                     else if k = 11 then 0xA0000000
                     else 3),
      GetReferenceStaticOffsets = (\<lambda>k. if k = 3 then 3 else 0),
      GetSuperClass = (\<lambda>k. if k = 2 then None else Some 2),
      IsArrayClass = (\<lambda>k. k = 9),
      IsObjectArrayClass = (\<lambda>k. k = 9),
      IsReferenceClass = (\<lambda>k. k = 11),
      NumReferenceStaticFields = (\<lambda>k. if k = 3 then 1 else 0),
      NumReferenceInstanceFields = (\<lambda>k. if k = 7 then 2 else if k = 2 then 1 else 0),
      GetStaticField = (\<lambda>k i. if k = 3 \<and> i = 0 then Some 103 else None),
      GetInstanceField = (\<lambda>k i. if k = 7 \<and> i = 0 then Some 100
                     else if k = 7 \<and> i = 1 then Some 101
                     else if k = 2 \<and> i = 0 then Some 102
                     else None),
      GetOffset = (\<lambda>f. if f = 100 then 8 else if f = 101 then 20
                     else if f = 103 then 40 else 0),
      GetLength = (\<lambda>a. if a = 10 then 3 else 0),
      GetWithoutChecks = (\<lambda>a i. if a = 10 \<and> i = 0 then Some 5
                     else if a = 10 \<and> i = 2 then Some 6 else None)\<rparr>"

definition demo_state :: "'v \<Rightarrow> 'v state" where
  "demo_state x =
     \<lparr>java_lang_Class = Some 1, class_count = 0, array_count = 0, other_count = 0,
      visited = x, delayed = [], spaces_dumped = 0\<rparr>"


section \<open>Properties of the loops\<close>

lemma visit_all_Nil [simp]: "visit_all v [] s = s"
  by (simp add: visit_all_def)

lemma visit_all_Cons [simp]:
  "visit_all v ((obj, ref, off, st) # cs) s = visit_all v cs (call_visitor v obj ref off st s)"
  by (simp add: visit_all_def)

lemma visit_all_append [simp]:
  "visit_all v (cs @ ds) s = visit_all v ds (visit_all v cs s)"
  by (simp add: visit_all_def)

lemma set_bits_desc_0 [simp]: "set_bits_desc 0 = []"
  by (simp add: set_bits_desc_def)

lemma set_bits_desc_step:
  assumes "x \<noteq> 0"
  shows "set_bits_desc x =
           (31 - CLZ x) # set_bits_desc (x AND NOT (drop_bit (CLZ x) CLASS_HIGH_BIT))"
proof -
  let ?p = "31 - CLZ x"
  let ?y = "x AND NOT (drop_bit (CLZ x) CLASS_HIGH_BIT)"
  have p: "?p < 32" by simp
  have split: "[0..<32] = [0..<?p] @ ?p # [Suc ?p..<32]"
    using p by (metis le_add2 le_add_same_cancel2 less_imp_add_positive upt_add_eq_append
        upt_conv_Cons)
  have hi_x: "filter (bit x) [Suc ?p..<32] = []"
    using CLZ_top(3) [OF assms] by (auto simp: filter_empty_conv)
  have hi_y: "filter (bit ?y) [Suc ?p..<32] = []"
    using CLZ_top(3) [OF assms] by (auto simp: filter_empty_conv bit_clear_top [OF assms])
  have lo: "filter (bit ?y) [0..<?p] = filter (bit x) [0..<?p]"
    by (rule filter_cong) (auto simp: bit_clear_top [OF assms])
  have "filter (bit x) [0..<32] = filter (bit x) [0..<?p] @ [?p]"
    unfolding split using hi_x CLZ_top(2) [OF assms] by simp
  moreover have "filter (bit ?y) [0..<32] = filter (bit x) [0..<?p]"
    unfolding split using hi_y lo by (simp add: bit_clear_top [OF assms])
  ultimately show ?thesis
    by (simp add: set_bits_desc_def)
qed

lemma VisitFieldsReferences_while_calls:
  "VisitFieldsReferences_while B h (Some a) x is_static v s =
     Inr (visit_all v (bitmap_calls B h a x is_static) s)"
proof (induction B h "Some a :: ptr" x is_static v s rule: VisitFieldsReferences_while.induct)
  case (1 B h x is_static v s)
  show ?case
  proof (cases "x = 0")
    case True
    then show ?thesis
      by (subst VisitFieldsReferences_while.simps) (simp add: bitmap_calls_def)
  next
    case False
    let ?c = "CLZ x"
    let ?off = "CLASS_OFFSET_FROM_CLZ B ?c"
    let ?s' = "call_visitor v (Some a) (GetFieldObject h a ?off) ?off is_static s"
    let ?y = "x AND NOT (drop_bit ?c CLASS_HIGH_BIT)"
    have "VisitFieldsReferences_while B h (Some a) x is_static v s =
            VisitFieldsReferences_while B h (Some a) ?y is_static v ?s'"
      using False by (subst VisitFieldsReferences_while.simps) (simp add: Let_def)
    also have "\<dots> = Inr (visit_all v (bitmap_calls B h a ?y is_static) ?s')"
      by (rule "1" [OF False refl refl refl refl refl])
    also have "\<dots> = Inr (visit_all v (bitmap_calls B h a x is_static) s)"
      using CLZ_top(1) [OF False]
      by (simp add: bitmap_calls_def set_bits_desc_step [OF False])
    finally show ?thesis .
  qed
qed

lemma card_set_bits: "card {p. bit (x::uint32_t) p} = length (filter (bit x) [0..<32])"
proof -
  have "{p. bit x p} = set (filter (bit x) [0..<32])"
    using bit_imp_le_length [of x] by auto
  then have "card {p. bit x p} = card (set (filter (bit x) [0..<32]))"
    by (rule arg_cong)
  also have "\<dots> = length (filter (bit x) [0..<32])"
    by (rule distinct_card) simp
  finally show ?thesis .
qed

lemma visit_all_count:
  "visit_all (\<lambda>obj ref offset is_static n. Suc n) cs s = s\<lparr>visited := visited s + length cs\<rparr>"
  by (induction cs arbitrary: s) (auto simp: call_visitor_def)

lemma demo_bits: "rev (filter (bit (0x28000000::uint32_t)) [0..<32]) = [29, 27]"
  by code_simp

lemma demo_card: "card {p. bit (0x28000000::uint32_t) p} = 2"
proof -
  have "length (filter (bit (0x28000000::uint32_t)) [0..<32]) = 2"
    using arg_cong [OF demo_bits, of length] by simp
  then show ?thesis
    by (simp only: card_set_bits)
qed

lemma VisitFieldsReferences_fields_calls:
  "those (map (\<lambda>j. klass_field h is_static k (of_nat j)) [unat i..<unat n]) = Some fs \<Longrightarrow>
   VisitFieldsReferences_fields h (Some a) is_static k n i v s =
     Inr (visit_all v (map (field_call h a is_static) fs) s)"
proof (induction h "Some a :: ptr" is_static k n i v s arbitrary: fs
    rule: VisitFieldsReferences_fields.induct)
  case (1 h is_static k n i v s)
  show ?case
  proof (cases "i < n")
    case False
    then have "[unat i..<unat n] = []"
      by (simp add: word_less_nat_alt)
    with "1.prems" have "fs = []" by simp
    with False show ?thesis
      by (subst VisitFieldsReferences_fields.simps) simp
  next
    case True
    then have "unat i < unat n"
      by (simp add: word_less_nat_alt)
    then have upt: "[unat i..<unat n] = unat i # [unat (i + 1)..<unat n]"
      by (simp add: upt_conv_Cons unat_Suc_less [OF True])
    from "1.prems" obtain f fs' where
      f: "klass_field h is_static k i = Some f" and
      fs': "those (map (\<lambda>j. klass_field h is_static k (of_nat j)) [unat (i + 1)..<unat n]) = Some fs'" and
      fs: "fs = f # fs'"
      unfolding upt by (auto split: option.splits)
    let ?off = "GetOffset h f"
    let ?s' = "call_visitor v (Some a) (GetFieldObject h a ?off) ?off is_static s"
    have "VisitFieldsReferences_fields h (Some a) is_static k n i v s =
            VisitFieldsReferences_fields h (Some a) is_static k n (i + 1) v ?s'"
      using True f
      by (subst VisitFieldsReferences_fields.simps) (simp add: Let_def klass_field_def)
    also have "\<dots> = Inr (visit_all v (map (field_call h a is_static) fs') ?s')"
      using f by (intro "1.hyps" [OF True refl _ refl refl refl refl fs'])
        (simp add: klass_field_def)
    finally show ?thesis
      by (simp add: fs field_call_def)
  qed
qed

lemma VisitFieldsReferences_klass_fields:
  assumes "reference_fields h is_static k = Some fs"
  shows "VisitFieldsReferences_fields h (Some a) is_static k
           (if is_static then NumReferenceStaticFields h k else NumReferenceInstanceFields h k)
           0 v s =
         Inr (visit_all v (map (field_call h a is_static) fs) s)"
  using assms
  by (intro VisitFieldsReferences_fields_calls) (simp add: reference_fields_def)

lemma VisitFieldsReferences_klasses_None:
  "VisitFieldsReferences_klasses h obj is_static None v s = Some (Inr s)"
  by (subst VisitFieldsReferences_klasses.simps) simp

lemma VisitFieldsReferences_klasses_chain:
  "super_chain h klass ks \<Longrightarrow> those (map (reference_fields h False) ks) = Some fss \<Longrightarrow>
   VisitFieldsReferences_klasses h (Some a) False klass v s =
     Some (Inr (visit_all v (concat (map (map (field_call h a False)) fss)) s))"
proof (induction ks arbitrary: klass fss s)
  case Nil
  then have "klass = None" by (cases klass) auto
  with Nil show ?case
    by (simp add: VisitFieldsReferences_klasses_None)
next
  case (Cons k ks)
  from Cons.prems(1) have klass: "klass = Some k" and
    chain: "super_chain h (GetSuperClass h k) ks"
    by (cases klass; simp)+
  from Cons.prems(2) obtain fs fss' where
    fs: "reference_fields h False k = Some fs" and
    fss': "those (map (reference_fields h False) ks) = Some fss'" and
    fss: "fss = fs # fss'"
    by (auto split: option.splits)
  show ?case
    unfolding klass
    by (subst VisitFieldsReferences_klasses.simps)
      (use VisitFieldsReferences_klass_fields [OF fs, of a v s] in
        \<open>simp add: Cons.IH [OF chain fss'] fss\<close>)
qed

lemma VisitFieldsReferences_klasses_static:
  assumes "reference_fields h True k = Some fs"
  shows "VisitFieldsReferences_klasses h (Some a) True (Some k) v s =
           Some (Inr (visit_all v (map (field_call h a True) fs) s))"
  by (subst VisitFieldsReferences_klasses.simps)
    (use VisitFieldsReferences_klass_fields [OF assms, of a v s] in
      \<open>simp add: VisitFieldsReferences_klasses_None\<close>)

lemma VisitObjectArrayReferences_for_calls:
  "0 \<le> sint i \<Longrightarrow>
   VisitObjectArrayReferences_for B h (Some a) len i v s =
     Inr (visit_all v (map (element_call B h a) [nat (sint i)..<nat (sint len)]) s)"
proof (induction B h "Some a :: ptr" len i v s rule: VisitObjectArrayReferences_for.induct)
  case (1 B h len i v s)
  show ?case
  proof (cases "i <s len")
    case False
    then have e: "[nat (sint i)..<nat (sint len)] = []"
      by (simp add: word_sless_alt)
    from False show ?thesis
      by (subst VisitObjectArrayReferences_for.simps) (simp add: e)
  next
    case True
    have i: "word_of_nat (nat (sint i)) = i"
      using "1.prems" by simp
    have next_i: "sint (i + 1) = sint i + 1"
      by (rule sint_Suc_sless [OF True])
    have "nat (sint i) < nat (sint len)"
      using True "1.prems" by (simp add: word_sless_alt)
    then have upt: "[nat (sint i)..<nat (sint len)] =
        nat (sint i) # [nat (sint (i + 1))..<nat (sint len)]"
      using "1.prems" by (simp add: upt_conv_Cons next_i nat_add_distrib)
    let ?w = "sizeof_Object_ptr B"
    let ?s' = "call_visitor v (Some a) (GetWithoutChecks h a i) (i * ?w + DataOffset B ?w) False s"
    have "VisitObjectArrayReferences_for B h (Some a) len i v s =
            VisitObjectArrayReferences_for B h (Some a) len (i + 1) v ?s'"
      using True by (subst VisitObjectArrayReferences_for.simps) (simp add: Let_def)
    also have "\<dots> = Inr (visit_all v
        (map (element_call B h a) [nat (sint (i + 1))..<nat (sint len)]) ?s')"
      using "1.prems" by (intro "1.hyps" [OF True refl refl refl refl refl])
        (simp add: next_i)
    finally show ?thesis
      unfolding upt by (simp add: element_call_def i)
  qed
qed

lemma carry_simps [simp]:
  "carry \<phi> (Inl (e, s)) = Inl (e, \<phi> s)"
  "carry \<phi> (Inr s) = Inr (\<phi> s)"
  by (simp_all add: carry_def)

lemma simulatesD:
  "simulates_at \<phi> v w obj is_static \<Longrightarrow>
     \<phi> (call_visitor v obj ref offset is_static s) = call_visitor w obj ref offset is_static (\<phi> s)"
  by (simp add: simulates_at_def)

lemma simulates_at: "simulates \<phi> v w \<Longrightarrow> simulates_at \<phi> v w obj is_static"
  by (simp add: simulates_def)

lemma while_zero: "VisitFieldsReferences_while B h obj 0 is_static v s = Inr s"
  by (subst VisitFieldsReferences_while.simps) simp

lemma while_null:
  "x \<noteq> 0 \<Longrightarrow>
   VisitFieldsReferences_while B h None x is_static v s = Inl (NullPointerDereference, s)"
  by (subst VisitFieldsReferences_while.simps) simp

lemma while_step:
  "x \<noteq> 0 \<Longrightarrow>
   VisitFieldsReferences_while B h (Some a) x is_static v s =
     VisitFieldsReferences_while B h (Some a) (x AND NOT (drop_bit (CLZ x) CLASS_HIGH_BIT))
       is_static v
       (call_visitor v (Some a) (GetFieldObject h a (CLASS_OFFSET_FROM_CLZ B (CLZ x)))
          (CLASS_OFFSET_FROM_CLZ B (CLZ x)) is_static s)"
  by (subst VisitFieldsReferences_while.simps) (simp add: Let_def)

lemma fields_done:
  "\<not> i < n \<Longrightarrow> VisitFieldsReferences_fields h obj is_static k n i v s = Inr s"
  by (subst VisitFieldsReferences_fields.simps) simp

lemma fields_null_field:
  "i < n \<Longrightarrow> klass_field h is_static k i = None \<Longrightarrow>
   VisitFieldsReferences_fields h obj is_static k n i v s = Inl (NullPointerDereference, s)"
  by (subst VisitFieldsReferences_fields.simps) (simp add: klass_field_def)

lemma fields_null_obj:
  "i < n \<Longrightarrow> klass_field h is_static k i = Some f \<Longrightarrow>
   VisitFieldsReferences_fields h None is_static k n i v s = Inl (NullPointerDereference, s)"
  by (subst VisitFieldsReferences_fields.simps) (simp add: klass_field_def)

lemma fields_step:
  "i < n \<Longrightarrow> klass_field h is_static k i = Some f \<Longrightarrow>
   VisitFieldsReferences_fields h (Some a) is_static k n i v s =
     VisitFieldsReferences_fields h (Some a) is_static k n (i + 1) v
       (call_visitor v (Some a) (GetFieldObject h a (GetOffset h f)) (GetOffset h f) is_static s)"
  by (subst VisitFieldsReferences_fields.simps) (simp add: klass_field_def Let_def)

lemma for_done:
  "\<not> i <s len \<Longrightarrow> VisitObjectArrayReferences_for B h array len i v s = Inr s"
  by (subst VisitObjectArrayReferences_for.simps) simp

lemma for_null:
  "i <s len \<Longrightarrow>
   VisitObjectArrayReferences_for B h None len i v s = Inl (NullPointerDereference, s)"
  by (subst VisitObjectArrayReferences_for.simps) simp

lemma for_step:
  "i <s len \<Longrightarrow>
   VisitObjectArrayReferences_for B h (Some a) len i v s =
     VisitObjectArrayReferences_for B h (Some a) len (i + 1) v
       (call_visitor v (Some a) (GetWithoutChecks h a i)
          (i * sizeof_Object_ptr B + DataOffset B (sizeof_Object_ptr B)) False s)"
  by (subst VisitObjectArrayReferences_for.simps) (simp add: Let_def)

lemma VisitFieldsReferences_while_sim:
  "simulates_at \<phi> v w obj is_static \<Longrightarrow>
   VisitFieldsReferences_while B h obj x is_static w (\<phi> s) =
     carry \<phi> (VisitFieldsReferences_while B h obj x is_static v s)"
proof (induction B h obj x is_static v s rule: VisitFieldsReferences_while.induct)
  case (1 B h obj x is_static v s)
  show ?case
  proof (cases "x = 0")
    case True
    then show ?thesis
      by (simp add: while_zero)
  next
    case False
    show ?thesis
    proof (cases obj)
      case None
      with False show ?thesis
        by (simp add: while_null)
    next
      case (Some a)
      show ?thesis
        using "1.IH" [OF False refl refl Some refl refl "1.prems"] "1.prems"
        by (simp add: Some while_step [OF False] simulatesD)
    qed
  qed
qed

lemma VisitFieldsReferences_fields_sim:
  "simulates_at \<phi> v w obj is_static \<Longrightarrow>
   VisitFieldsReferences_fields h obj is_static k n i w (\<phi> s) =
     carry \<phi> (VisitFieldsReferences_fields h obj is_static k n i v s)"
proof (induction h obj is_static k n i v s rule: VisitFieldsReferences_fields.induct)
  case (1 h obj is_static k n i v s)
  show ?case
  proof (cases "i < n")
    case False
    then show ?thesis
      by (simp add: fields_done)
  next
    case True
    show ?thesis
    proof (cases "klass_field h is_static k i")
      case None
      with True show ?thesis
        by (simp add: fields_null_field)
    next
      case (Some f)
      show ?thesis
      proof (cases obj)
        case None
        with True Some show ?thesis
          by (simp add: fields_null_obj)
      next
        case obj: (Some a)
        have f: "(if is_static then GetStaticField h k i else GetInstanceField h k i) = Some f"
          using Some by (simp add: klass_field_def)
        show ?thesis
          using "1.IH" [OF True refl f refl obj refl refl "1.prems"] "1.prems"
          by (simp add: obj fields_step [OF True Some] simulatesD)
      qed
    qed
  qed
qed

lemma VisitObjectArrayReferences_for_sim:
  "simulates_at \<phi> v w array False \<Longrightarrow>
   VisitObjectArrayReferences_for B h array len i w (\<phi> s) =
     carry \<phi> (VisitObjectArrayReferences_for B h array len i v s)"
proof (induction B h array len i v s rule: VisitObjectArrayReferences_for.induct)
  case (1 B h array len i v s)
  show ?case
  proof (cases "i <s len")
    case False
    then show ?thesis
      by (simp add: for_done)
  next
    case True
    show ?thesis
    proof (cases array)
      case None
      with True show ?thesis
        by (simp add: for_null)
    next
      case (Some a)
      show ?thesis
        using "1.IH" [OF True Some refl refl refl refl "1.prems"] "1.prems"
        by (simp add: Some for_step [OF True] simulatesD)
    qed
  qed
qed

lemma klasses_step:
  "VisitFieldsReferences_klasses h obj is_static (Some k) v s =
     (case VisitFieldsReferences_fields h obj is_static k
             (if is_static then NumReferenceStaticFields h k else NumReferenceInstanceFields h k)
             0 v s of
        Inl e \<Rightarrow> Some (Inl e)
      | Inr s' \<Rightarrow>
          VisitFieldsReferences_klasses h obj is_static
            (if is_static then None else GetSuperClass h k) v s')"
  by (subst VisitFieldsReferences_klasses.simps) simp

lemma klasses_sim_forward:
  assumes sim: "simulates_at \<phi> v w obj is_static"
    and run: "VisitFieldsReferences_klasses h obj is_static klass v s = Some r"
  shows "VisitFieldsReferences_klasses h obj is_static klass w (\<phi> s) = Some (carry \<phi> r)"
proof -
  let ?P = "\<lambda>h obj' is_static' klass v' s r. obj' = obj \<and> is_static' = is_static \<and> v' = v \<longrightarrow>
          VisitFieldsReferences_klasses h obj is_static klass w (\<phi> s) = Some (carry \<phi> r)"
  have "?P h obj' is_static' klass v' s r"
    if "VisitFieldsReferences_klasses h obj' is_static' klass v' s = Some r" for obj' is_static' v'
    using that
  proof (rule VisitFieldsReferences_klasses.raw_induct [rotated 1, where P = ?P])
    fix f h obj' is_static' klass v' and s :: "'a state" and r
    assume IH: "\<And>h obj' is_static' klass v' s r.
        f h obj' is_static' klass v' s = Some r \<Longrightarrow> ?P h obj' is_static' klass v' s r"
      and body: "(case klass of
          None \<Rightarrow> Some (Inr s)
        | Some k \<Rightarrow>
            let num_reference_fields =
                  (if is_static' then NumReferenceStaticFields h k
                   else NumReferenceInstanceFields h k)
            in case VisitFieldsReferences_fields h obj' is_static' k num_reference_fields 0 v' s of
                 Inl e \<Rightarrow> Some (Inl e)
               | Inr s' \<Rightarrow>
                   f h obj' is_static' (if is_static' then None else GetSuperClass h k) v' s') =
          Some r"
    show "?P h obj' is_static' klass v' s r"
    proof
      assume eq: "obj' = obj \<and> is_static' = is_static \<and> v' = v"
      show "VisitFieldsReferences_klasses h obj is_static klass w (\<phi> s) = Some (carry \<phi> r)"
      proof (cases klass)
        case None
        with body show ?thesis
          by (auto simp: VisitFieldsReferences_klasses_None)
      next
        case (Some k)
        let ?n = "if is_static then NumReferenceStaticFields h k else NumReferenceInstanceFields h k"
        note fs = VisitFieldsReferences_fields_sim [OF sim, of h k ?n 0 s]
        show ?thesis
        proof (cases "VisitFieldsReferences_fields h obj is_static k ?n 0 v s")
          case (Inl e)
          with body Some eq fs show ?thesis
            by (cases e) (auto simp: klasses_step)
        next
          case (Inr s')
          with body Some eq
          have "f h obj is_static (if is_static then None else GetSuperClass h k) v s' = Some r"
            by simp
          from IH [OF this] Inr fs show ?thesis
            by (simp add: klasses_step Some)
        qed
      qed
    qed
  qed
  with run show ?thesis by blast
qed

lemma klasses_sim_backward:
  assumes sim: "simulates_at \<phi> v w obj is_static"
    and run: "VisitFieldsReferences_klasses h obj is_static klass w (\<phi> s) = Some r'"
  shows "\<exists>r. VisitFieldsReferences_klasses h obj is_static klass v s = Some r \<and> r' = carry \<phi> r"
proof -
  let ?P = "\<lambda>h obj' is_static' klass w' t r'.
        obj' = obj \<and> is_static' = is_static \<and> w' = w \<longrightarrow> (\<forall>s. t = \<phi> s \<longrightarrow>
          (\<exists>r. VisitFieldsReferences_klasses h obj is_static klass v s = Some r \<and>
               r' = carry \<phi> r))"
  have "?P h obj' is_static' klass w' t r'"
    if "VisitFieldsReferences_klasses h obj' is_static' klass w' t = Some r'"
    for obj' is_static' w' t
    using that
  proof (rule VisitFieldsReferences_klasses.raw_induct [rotated 1, where P = ?P])
    fix f h obj' is_static' klass w' and t :: "'b state" and r'
    assume IH: "\<And>h obj' is_static' klass w' t r'.
        f h obj' is_static' klass w' t = Some r' \<Longrightarrow> ?P h obj' is_static' klass w' t r'"
      and body: "(case klass of
          None \<Rightarrow> Some (Inr t)
        | Some k \<Rightarrow>
            let num_reference_fields =
                  (if is_static' then NumReferenceStaticFields h k
                   else NumReferenceInstanceFields h k)
            in case VisitFieldsReferences_fields h obj' is_static' k num_reference_fields 0 w' t of
                 Inl e \<Rightarrow> Some (Inl e)
               | Inr s' \<Rightarrow>
                   f h obj' is_static' (if is_static' then None else GetSuperClass h k) w' s') =
          Some r'"
    show "?P h obj' is_static' klass w' t r'"
    proof (intro impI allI)
      fix s
      assume eq: "obj' = obj \<and> is_static' = is_static \<and> w' = w" and t: "t = \<phi> s"
      show "\<exists>r. VisitFieldsReferences_klasses h obj is_static klass v s = Some r \<and>
               r' = carry \<phi> r"
      proof (cases klass)
        case None
        with body t show ?thesis
          by (auto simp: VisitFieldsReferences_klasses_None)
      next
        case (Some k)
        let ?n = "if is_static then NumReferenceStaticFields h k else NumReferenceInstanceFields h k"
        note fs = VisitFieldsReferences_fields_sim [OF sim, of h k ?n 0 s]
        show ?thesis
        proof (cases "VisitFieldsReferences_fields h obj is_static k ?n 0 v s")
          case (Inl e)
          with body Some eq t fs show ?thesis
            by (cases e) (auto simp: klasses_step)
        next
          case (Inr s')
          with body Some eq t fs
          have "f h obj is_static (if is_static then None else GetSuperClass h k) w (\<phi> s') = Some r'"
            by simp
          from IH [OF this] Inr show ?thesis
            by (simp add: klasses_step Some)
        qed
      qed
    qed
  qed
  with run show ?thesis by blast
qed

lemma VisitFieldsReferences_klasses_sim:
  assumes "simulates_at \<phi> v w obj is_static"
  shows "VisitFieldsReferences_klasses h obj is_static klass w (\<phi> s) =
           map_option (carry \<phi>) (VisitFieldsReferences_klasses h obj is_static klass v s)"
proof (cases "VisitFieldsReferences_klasses h obj is_static klass v s")
  case (Some r)
  then show ?thesis
    by (simp add: klasses_sim_forward [OF assms])
next
  case None
  have "VisitFieldsReferences_klasses h obj is_static klass w (\<phi> s) = None"
  proof (rule ccontr)
    assume "VisitFieldsReferences_klasses h obj is_static klass w (\<phi> s) \<noteq> None"
    then obtain r' where "VisitFieldsReferences_klasses h obj is_static klass w (\<phi> s) = Some r'"
      by blast
    from klasses_sim_backward [OF assms this] None show False
      by simp
  qed
  with None show ?thesis by simp
qed

lemma VisitFieldsReferences_sim_static:
  assumes "simulates_at \<phi> v w obj True"
  shows "VisitFieldsReferences B h obj x True w (\<phi> s) =
           map_option (carry \<phi>) (VisitFieldsReferences B h obj x True v s)"
  by (simp add: VisitFieldsReferences_def VisitFieldsReferences_while_sim [OF assms]
      VisitFieldsReferences_klasses_sim [OF assms])

lemma VisitFieldsReferences_sim_instance:
  assumes "simulates_at \<phi> v w obj False"
  shows "VisitFieldsReferences B h obj x False w (\<phi> s) =
           map_option (carry \<phi>) (VisitFieldsReferences B h obj x False v s)"
proof (cases obj)
  case None
  note sim = assms [unfolded None]
  show ?thesis
    unfolding None
    by (simp add: VisitFieldsReferences_def VisitFieldsReferences_while_sim [OF sim])
next
  case (Some a)
  note sim = assms [unfolded Some]
  show ?thesis
    unfolding Some
    by (simp add: VisitFieldsReferences_def VisitFieldsReferences_while_sim [OF sim]
        VisitFieldsReferences_klasses_sim [OF sim])
qed

lemma VisitFieldsReferences_sim:
  assumes "simulates_at \<phi> v w obj is_static"
  shows "VisitFieldsReferences B h obj x is_static w (\<phi> s) =
           map_option (carry \<phi>) (VisitFieldsReferences B h obj x is_static v s)"
  using assms
  by (cases is_static)
    (simp_all add: VisitFieldsReferences_sim_static [of \<phi> v w]
      VisitFieldsReferences_sim_instance [of \<phi> v w])

lemma VisitInstanceFieldsReferences_sim:
  assumes "simulates_at \<phi> v w obj False"
  shows "VisitInstanceFieldsReferences B h klass obj w (\<phi> s) =
           map_option (carry \<phi>) (VisitInstanceFieldsReferences B h klass obj v s)"
  by (cases klass)
    (simp_all add: VisitInstanceFieldsReferences_def VisitFieldsReferences_sim [OF assms])

lemma VisitStaticFieldsReferences_sim:
  assumes "simulates_at \<phi> v w klass True"
  shows "VisitStaticFieldsReferences B h klass w (\<phi> s) =
           map_option (carry \<phi>) (VisitStaticFieldsReferences B h klass v s)"
proof (cases klass)
  case None
  then show ?thesis
    by (simp add: VisitStaticFieldsReferences_def)
next
  case (Some k)
  note sim = assms [unfolded Some]
  show ?thesis
    unfolding Some
    by (simp add: VisitStaticFieldsReferences_def VisitFieldsReferences_sim [OF sim])
qed

lemma VisitClassReferences_sim:
  assumes "simulates \<phi> v w"
  shows "VisitClassReferences B h klass obj w (\<phi> s) =
           map_option (carry \<phi>) (VisitClassReferences B h klass obj v s)"
  by (auto simp: VisitClassReferences_def AsClass_def
      VisitInstanceFieldsReferences_sim [OF simulates_at [OF assms]]
      VisitStaticFieldsReferences_sim [OF simulates_at [OF assms]]
      split: option.splits sum.splits)

lemma VisitOtherReferences_sim:
  assumes "simulates \<phi> v w"
  shows "VisitOtherReferences B h klass obj w (\<phi> s) =
           map_option (carry \<phi>) (VisitOtherReferences B h klass obj v s)"
  by (simp add: VisitOtherReferences_def
      VisitInstanceFieldsReferences_sim [OF simulates_at [OF assms]])

lemma VisitObjectArrayReferences_sim:
  assumes "simulates_at \<phi> v w array False"
  shows "VisitObjectArrayReferences B h array w (\<phi> s) =
           carry \<phi> (VisitObjectArrayReferences B h array v s)"
proof (cases array)
  case None
  then show ?thesis
    by (simp add: VisitObjectArrayReferences_def)
next
  case (Some a)
  note sim = assms [unfolded Some]
  show ?thesis
    unfolding Some
    by (simp add: VisitObjectArrayReferences_def VisitObjectArrayReferences_for_sim [OF sim])
qed

lemma final_simps [simp]: "final (Inl (e, s)) = s" "final (Inr s) = s"
  by (simp_all add: final_def)

lemma seen_simps [simp]: "seen (Inl (e, s)) = Inl (e, visited s)" "seen (Inr s) = Inr (visited s)"
  by (simp_all add: seen_def)

lemma final_carry: "final (carry \<phi> r) = \<phi> (final r)"
  by (cases r) (auto simp: final_def)

lemma simulates_with_collector: "simulates (with_collector s) v v"
  by (simp add: simulates_def simulates_at_def with_collector_def call_visitor_def)

lemma with_collector_self: "with_collector s s = s"
  by (simp add: with_collector_def)

lemma with_collector_fixed:
  assumes "t = with_collector s t"
  shows "java_lang_Class t = java_lang_Class s" "class_count t = class_count s"
    "array_count t = array_count s" "other_count t = other_count s"
    "delayed t = delayed s" "spaces_dumped t = spaces_dumped s"
  by (subst assms, simp add: with_collector_def)+

lemma frame_option:
  assumes "F (with_collector s s) = map_option (carry (with_collector s)) (F s)"
    and "F s = Some r"
  shows "final r = with_collector s (final r)"
  using assms by (simp add: with_collector_self final_carry [symmetric])

lemma frame_result:
  assumes "F (with_collector s s) = carry (with_collector s) (F s)"
  shows "final (F s) = with_collector s (final (F s))"
  using assms by (simp add: with_collector_self final_carry [symmetric])

lemmas frame_VisitClassReferences =
  frame_option [of "VisitClassReferences B h klass obj v" for B h klass obj v,
    OF VisitClassReferences_sim [OF simulates_with_collector]]

lemmas frame_VisitOtherReferences =
  frame_option [of "VisitOtherReferences B h klass obj v" for B h klass obj v,
    OF VisitOtherReferences_sim [OF simulates_with_collector]]

lemmas frame_VisitObjectArrayReferences =
  frame_result [of "VisitObjectArrayReferences B h array v" for B h array v,
    OF VisitObjectArrayReferences_sim [OF simulates_at [OF simulates_with_collector]]]


lemma ScanObjectVisit_null:
  "ScanObjectVisit B h None v s =
     Some (Inl (if kIsDebugBuild B then CheckFailed else NullPointerDereference, s))"
  by (simp add: ScanObjectVisit_def)

lemma ScanObjectVisit_unmarked:
  "kIsDebugBuild B \<Longrightarrow> \<not> IsMarked h a \<Longrightarrow>
   ScanObjectVisit B h (Some a) v s =
     Some (Inl (FatalScanningUnmarkedObject a, s\<lparr>spaces_dumped := Suc (spaces_dumped s)\<rparr>))"
  by (simp add: ScanObjectVisit_def)

lemma ScanObjectVisit_class:
  assumes "kIsDebugBuild B \<longrightarrow> IsMarked h a" and "GetClass h a = Some k"
    and "java_lang_Class s = Some k"
  shows "ScanObjectVisit B h (Some a) v s =
     (if kIsDebugBuild B \<and> GetClass h k \<noteq> Some k
      then Some (Inl (CheckFailed, s))
      else VisitClassReferences B h (Some k) (Some a) v
             (if kCountScannedTypes B then s\<lparr>class_count := class_count s + 1\<rparr> else s))"
  using assms by (auto simp: ScanObjectVisit_def Let_def)

lemma ScanObjectVisit_no_class:
  assumes "kIsDebugBuild B \<longrightarrow> IsMarked h a" and "GetClass h a = None"
  shows "ScanObjectVisit B h (Some a) v s =
     Some (Inl (if kIsDebugBuild B then CheckFailed else NullPointerDereference,
                if \<not> kIsDebugBuild B \<and> java_lang_Class s = None \<and> kCountScannedTypes B
                then s\<lparr>class_count := class_count s + 1\<rparr> else s))"
  using assms
  by (auto simp: ScanObjectVisit_def Let_def VisitClassReferences_def
      VisitInstanceFieldsReferences_def)

lemma ScanObjectVisit_array:
  assumes "kIsDebugBuild B \<longrightarrow> IsMarked h a" and "GetClass h a = Some k"
    and "java_lang_Class s \<noteq> Some k" and "IsArrayClass h k"
  shows "ScanObjectVisit B h (Some a) v s =
     (let s1 = (if kCountScannedTypes B then s\<lparr>array_count := array_count s + 1\<rparr> else s);
          s2 = call_visitor v (Some a) (Some k) (ClassOffset B) False s1
      in if IsObjectArrayClass h k
         then Some (VisitObjectArrayReferences B h (Some a) v s2)
         else Some (Inr s2))"
  using assms by (auto simp: ScanObjectVisit_def Let_def AsObjectArray_def)

lemma ScanObjectVisit_other:
  assumes "kIsDebugBuild B \<longrightarrow> IsMarked h a" and "GetClass h a = Some k"
    and "java_lang_Class s \<noteq> Some k" and "\<not> IsArrayClass h k"
  shows "ScanObjectVisit B h (Some a) v s =
     (case VisitOtherReferences B h (Some k) (Some a) v
             (if kCountScannedTypes B then s\<lparr>other_count := other_count s + 1\<rparr> else s) of
        None \<Rightarrow> None
      | Some (Inl e) \<Rightarrow> Some (Inl e)
      | Some (Inr s2) \<Rightarrow>
          if IsReferenceClass h k then Some (Inr (DelayReferenceReferent (Some a) s2))
          else Some (Inr s2))"
  using assms by (auto simp: ScanObjectVisit_def Let_def)






lemma VisitObjectReferences_null:
  "VisitObjectReferences B h None v s =
     Some (Inl (if kIsDebugBuild B then CheckFailed else NullPointerDereference, s))"
  by (simp add: VisitObjectReferences_def)

lemma VisitObjectReferences_no_class:
  assumes "GetClass h a = None"
  shows "VisitObjectReferences B h (Some a) v s =
     Some (Inl (if kIsDebugBuild B then CheckFailed else NullPointerDereference, s))"
  using assms
  by (auto simp: VisitObjectReferences_def Let_def VisitClassReferences_def
      VisitInstanceFieldsReferences_def)

lemma VisitObjectReferences_class:
  assumes "GetClass h a = Some k" and "GetJavaLangClass h = Some k"
  shows "VisitObjectReferences B h (Some a) v s =
     (if kIsDebugBuild B \<and> GetClass h k \<noteq> Some k
      then Some (Inl (CheckFailed, s))
      else VisitClassReferences B h (Some k) (Some a) v s)"
  using assms by (auto simp: VisitObjectReferences_def Let_def)

lemma VisitObjectReferences_array:
  assumes "GetClass h a = Some k" and "GetJavaLangClass h \<noteq> Some k" and "IsArrayClass h k"
  shows "VisitObjectReferences B h (Some a) v s =
     (let s1 = call_visitor v (Some a) (Some k) (ClassOffset B) False s
      in if IsObjectArrayClass h k
         then Some (VisitObjectArrayReferences B h (Some a) v s1)
         else Some (Inr s1))"
  using assms by (auto simp: VisitObjectReferences_def Let_def AsObjectArray_def)

lemma VisitObjectReferences_other:
  assumes "GetClass h a = Some k" and "GetJavaLangClass h \<noteq> Some k" and "\<not> IsArrayClass h k"
  shows "VisitObjectReferences B h (Some a) v s = VisitOtherReferences B h (Some k) (Some a) v s"
  using assms by (auto simp: VisitObjectReferences_def Let_def)

lemma VisitObjectReferences_sim:
  assumes sim: "simulates \<phi> v w"
  shows "VisitObjectReferences B h obj w (\<phi> s) =
           map_option (carry \<phi>) (VisitObjectReferences B h obj v s)"
proof (cases obj)
  case None
  then show ?thesis
    by (simp add: VisitObjectReferences_null)
next
  case (Some a)
  show ?thesis
  proof (cases "GetClass h a")
    case None
    then show ?thesis
      by (simp add: Some VisitObjectReferences_no_class)
  next
    case klass: (Some k)
    show ?thesis
    proof (cases "GetJavaLangClass h = Some k")
      case True
      show ?thesis
        by (simp add: Some VisitObjectReferences_class [OF klass True]
            VisitClassReferences_sim [OF sim])
    next
      case nm: False
      show ?thesis
      proof (cases "IsArrayClass h k")
        case True
        show ?thesis
          by (simp add: Some VisitObjectReferences_array [OF klass nm True] Let_def
              simulatesD [OF simulates_at [OF sim], symmetric]
              VisitObjectArrayReferences_sim [OF simulates_at [OF sim]])
      next
        case False
        show ?thesis
          by (simp add: Some VisitObjectReferences_other [OF klass nm False]
              VisitOtherReferences_sim [OF sim])
      qed
    qed
  qed
qed

lemmas frame_VisitObjectReferences =
  frame_option [of "VisitObjectReferences B h obj v" for B h obj v,
    OF VisitObjectReferences_sim [OF simulates_with_collector]]


lemma demo_chain: "super_chain demo_heap (GetClass demo_heap 8) [7, 2]"
  by (simp add: demo_heap_def)

lemma demo_fields_7: "those (map (reference_fields demo_heap False) [7, 2]) = Some [[100, 101], [102]]"
  by code_simp

lemma demo_fields_3: "reference_fields demo_heap True 3 = Some [103]"
  by code_simp

lemma element_offset_unat:
  fixes width data :: "32 word"
  assumes "i < 2 ^ 32" and "i * unat width + unat data < 2 ^ 32"
  shows "unat (of_nat i * width + data) = i * unat width + unat data"
proof -
  have i: "unat (of_nat i :: 32 word) = i"
    using assms(1) by (simp add: unsigned_of_nat take_bit_nat_eq_self)
  have "unat (of_nat i * width + data) = (i * unat width + unat data) mod 2 ^ 32"
    by (simp add: unat_word_ariths i mod_simps)
  then show ?thesis using assms(2) by simp
qed

lemma VisitObjectArrayReferences_calls:
  "VisitObjectArrayReferences B h (Some a) v s =
     Inr (visit_all v (map (element_call B h a) [0..<nat (sint (GetLength h a))]) s)"
  using VisitObjectArrayReferences_for_calls [of 0 B h a "GetLength h a" v s]
  by (simp add: VisitObjectArrayReferences_def)

lemma demo_upt_3: "[0..<nat (sint (3 :: int32_t))] = [0, 1, 2]"
  by code_simp

lemma counts_with_collector:
  assumes "t = with_collector s t"
  shows "counts t = counts s"
  unfolding counts_def with_collector_fixed [OF assms] ..

lemma counts_simps [simp]:
  "counts (s\<lparr>visited := x\<rparr>) = counts s"
  "counts (DelayReferenceReferent obj s) = counts s"
  "counts (call_visitor v obj ref off st s) = counts s"
  by (simp_all add: counts_def DelayReferenceReferent_def call_visitor_def)

lemma demo_scan_4:
  "ScanObjectVisit demo_build demo_heap (Some 4) record_call (demo_state []) =
     Some (Inr \<lparr>java_lang_Class = Some 1, class_count = 0, array_count = 0, other_count = 1,
                visited = [(Some 4, Some 5, 8, False), (Some 4, Some 6, 16, False)],
                delayed = [], spaces_dumped = 0\<rparr>)"
  by code_simp

lemma demo_scan_12:
  "ScanObjectVisit demo_build demo_heap (Some 12) record_call (demo_state []) =
     Some (Inr \<lparr>java_lang_Class = Some 1, class_count = 0, array_count = 0, other_count = 1,
                visited = [(Some 12, Some 11, 0, False), (Some 12, Some 6, 8, False)],
                delayed = [Some 12], spaces_dumped = 0\<rparr>)"
  by code_simp

lemma demo_visit_12:
  "VisitObjectReferences demo_build demo_heap (Some 12) record_call (demo_state []) =
     Some (Inr \<lparr>java_lang_Class = Some 1, class_count = 0, array_count = 0, other_count = 0,
                visited = [(Some 12, Some 11, 0, False), (Some 12, Some 6, 8, False)],
                delayed = [], spaces_dumped = 0\<rparr>)"
  by code_simp

lemma carry_id [simp]: "carry id r = r"
  by (cases r) auto

lemma VisitFieldsReferences_stamped:
  assumes run: "VisitFieldsReferences B h obj x is_static record_call t = Some r"
    and init: "\<forall>c\<in>set (visited t). fst c = obj \<and> snd (snd (snd c)) = is_static"
  shows "\<forall>c\<in>set (visited (final r)). fst c = obj \<and> snd (snd (snd c)) = is_static"
proof -
  define w :: "call list visitor"
    where "w = (\<lambda>obj' ref offset is_static' cs. cs @ [(obj, ref, offset, is_static)])"
  define P :: "call \<Rightarrow> bool"
    where "P = (\<lambda>c. fst c = obj \<and> snd (snd (snd c)) = is_static)"
  define \<phi> :: "call list state \<Rightarrow> call list state"
    where "\<phi> = (\<lambda>u. u\<lparr>visited := filter P (visited u)\<rparr>)"
  have "simulates_at id record_call w obj is_static"
    by (simp add: simulates_at_def call_visitor_def record_call_def w_def)
  from VisitFieldsReferences_sim [OF this, of B h x t] run
  have run_w: "VisitFieldsReferences B h obj x is_static w t = Some r"
    by simp
  have fixed: "\<phi> t = t"
    using init by (simp add: \<phi>_def P_def)
  have "simulates_at \<phi> w w obj is_static"
    by (simp add: simulates_at_def call_visitor_def w_def \<phi>_def P_def)
  from VisitFieldsReferences_sim [OF this, of B h x t] run_w
  have "carry \<phi> r = r"
    by (simp add: fixed)
  then have "\<phi> (final r) = final r"
    by (simp add: final_carry [symmetric])
  then have "filter P (visited (final r)) = visited (final r)"
    by (simp add: \<phi>_def) (metis state.select_convs(5) state.surjective state.update_convs(5))
  then show ?thesis
    by (simp add: filter_id_conv P_def)
qed

lemma VisitFieldsReferences_from_fresh:
  "VisitFieldsReferences B h obj x is_static record_call t =
     map_option (carry (after t))
       (VisitFieldsReferences B h obj x is_static record_call (fresh m))"
proof -
  have "simulates_at (after t) record_call record_call obj is_static"
    by (simp add: simulates_at_def after_def with_collector_def call_visitor_def record_call_def)
  moreover have "after t (fresh m) = t"
    by (simp add: after_def with_collector_def fresh_def)
  ultimately show ?thesis
    using VisitFieldsReferences_sim [of "after t" record_call record_call obj is_static B h x
        "fresh m"]
    by simp
qed

lemma VisitFieldsReferences_recorded:
  assumes "VisitFieldsReferences B h obj x is_static record_call t = Some (Inr t')"
  shows "\<exists>cs. visited t' = visited t @ cs \<and>
              map_option seen (VisitFieldsReferences B h obj x is_static record_call (fresh m)) =
                Some (Inr cs) \<and>
              (\<forall>c\<in>set cs. fst c = obj \<and> snd (snd (snd c)) = is_static)"
proof -
  from assms VisitFieldsReferences_from_fresh [of B h obj x is_static t m]
  obtain r where r: "VisitFieldsReferences B h obj x is_static record_call (fresh m) = Some r"
    and t': "carry (after t) r = Inr t'"
    by (cases "VisitFieldsReferences B h obj x is_static record_call (fresh m)") auto
  from t' obtain u where u: "r = Inr u" and "t' = after t u"
    by (cases r) auto
  then have "visited t' = visited t @ visited u"
    by (simp add: after_def)
  moreover have "map_option seen
      (VisitFieldsReferences B h obj x is_static record_call (fresh m)) = Some (Inr (visited u))"
    by (simp add: r u)
  moreover have "\<forall>c\<in>set (visited u). fst c = obj \<and> snd (snd (snd c)) = is_static"
    using VisitFieldsReferences_stamped [OF r] by (simp add: u fresh_def)
  ultimately show ?thesis by blast
qed

lemma simulates_count_kind: "simulates (count_kind B c) v v"
  by (cases c) (simp_all add: simulates_def simulates_at_def count_kind_def call_visitor_def)

lemma visited_count_kind [simp]: "visited (count_kind B c s) = visited s"
  by (cases c) (simp_all add: count_kind_def)

lemma delayed_count_kind [simp]: "delayed (count_kind B c s) = delayed s"
  by (cases c) (simp_all add: count_kind_def)

lemma seen_carry:
  assumes "\<And>u. visited (\<phi> u) = visited u"
  shows "seen (carry \<phi> r) = seen r"
  by (cases r) (auto simp: assms)

lemma ScanObjectVisit_marked:
  assumes "ScanObjectVisit B h (Some a) v s = Some (Inr s')"
  shows "kIsDebugBuild B \<longrightarrow> IsMarked h a"
proof (rule ccontr)
  assume "\<not> (kIsDebugBuild B \<longrightarrow> IsMarked h a)"
  then have "kIsDebugBuild B" and "\<not> IsMarked h a"
    by simp_all
  from ScanObjectVisit_unmarked [OF this, of v s] assms show False
    by simp
qed

lemma ScanObjectVisit_collector:
  assumes run: "ScanObjectVisit B h (Some a) v s = Some (Inr s')" and k: "GetClass h a = Some k"
  shows "s' = with_collector
           (if classify (java_lang_Class s) h k = OtherObject \<and> IsReferenceClass h k
            then DelayReferenceReferent (Some a) (count_kind B (classify (java_lang_Class s) h k) s)
            else count_kind B (classify (java_lang_Class s) h k) s) s'"
proof -
  note marked = ScanObjectVisit_marked [OF run]
  show ?thesis
  proof (cases "java_lang_Class s = Some k")
    case True
    then have c: "classify (java_lang_Class s) h k = ClassObject"
      by (simp add: classify_def)
    let ?s1 = "count_kind B ClassObject s"
    have "ScanObjectVisit B h (Some a) v s =
        (if kIsDebugBuild B \<and> GetClass h k \<noteq> Some k then Some (Inl (CheckFailed, s))
         else VisitClassReferences B h (Some k) (Some a) v ?s1)"
      using ScanObjectVisit_class [OF marked k True, of v] by (simp add: count_kind_def)
    with run have "VisitClassReferences B h (Some k) (Some a) v ?s1 = Some (Inr s')"
      by (simp split: if_splits)
    from frame_VisitClassReferences [OF this, unfolded final_simps] show ?thesis
      by (simp only: c kind.distinct if_False simp_thms)
  next
    case nm: False
    show ?thesis
    proof (cases "IsArrayClass h k")
      case True
      with nm have c: "classify (java_lang_Class s) h k = ArrayObject"
        by (auto simp: classify_def)
      let ?s1 = "count_kind B ArrayObject s"
      let ?s2 = "call_visitor v (Some a) (Some k) (ClassOffset B) False ?s1"
      have s2: "with_collector ?s2 = with_collector ?s1"
        by (simp add: with_collector_def call_visitor_def fun_eq_iff)
      have shape: "ScanObjectVisit B h (Some a) v s =
          (if IsObjectArrayClass h k
           then Some (VisitObjectArrayReferences B h (Some a) v ?s2)
           else Some (Inr ?s2))"
        using ScanObjectVisit_array [OF marked k nm True, of v]
        by (simp add: Let_def count_kind_def)
      have "s' = with_collector ?s2 s'"
      proof (cases "IsObjectArrayClass h k")
        case False
        with run shape have "s' = ?s2"
          by simp
        then show ?thesis
          by (simp add: with_collector_self)
      next
        case obj_array: True
        with run shape have arr: "VisitObjectArrayReferences B h (Some a) v ?s2 = Inr s'"
          by simp
        from frame_VisitObjectArrayReferences [of B h "Some a" v ?s2, unfolded arr final_simps]
        show ?thesis .
      qed
      then show ?thesis
        by (simp only: c s2 kind.distinct if_False simp_thms)
    next
      case False
      with nm have c: "classify (java_lang_Class s) h k = OtherObject"
        by (auto simp: classify_def)
      let ?s1 = "count_kind B OtherObject s"
      have shape: "ScanObjectVisit B h (Some a) v s =
          (case VisitOtherReferences B h (Some k) (Some a) v ?s1 of
             None \<Rightarrow> None
           | Some (Inl e) \<Rightarrow> Some (Inl e)
           | Some (Inr s2) \<Rightarrow>
               if IsReferenceClass h k then Some (Inr (DelayReferenceReferent (Some a) s2))
               else Some (Inr s2))"
        using ScanObjectVisit_other [OF marked k nm False, of v] by (simp add: count_kind_def)
      obtain s2 where
        other: "VisitOtherReferences B h (Some k) (Some a) v ?s1 = Some (Inr s2)" and
        s': "s' = (if IsReferenceClass h k then DelayReferenceReferent (Some a) s2 else s2)"
      proof (cases "VisitOtherReferences B h (Some k) (Some a) v ?s1")
        case None
        with shape run show ?thesis by simp
      next
        case (Some r)
        show ?thesis
        proof (cases r)
          case (Inl e)
          with Some shape run show ?thesis by simp
        next
          case (Inr s2)
          with Some shape run that [of s2] show ?thesis
            by (simp split: if_splits)
        qed
      qed
      note fixed = with_collector_fixed [OF frame_VisitOtherReferences [OF other, unfolded final_simps]]
      show ?thesis
        unfolding c s'
        by (simp add: with_collector_def DelayReferenceReferent_def fixed)
    qed
  qed
qed

lemma map_option_seen_carry:
  assumes "\<And>u. visited (\<phi> u) = visited u"
  shows "map_option seen (map_option (carry \<phi>) x) = map_option seen x"
  by (cases x) (simp_all add: seen_carry [OF assms])

lemma carry_Inl: "carry \<phi> (Inl e) = Inl (fst e, \<phi> (snd e))"
  by (cases e) simp

lemma seen_Inl: "seen (Inl e) = Inl (fst e, visited (snd e))"
  by (cases e) simp

lemma entry_points_seen:
  assumes meta: "java_lang_Class s = GetJavaLangClass h"
    and marked: "kIsDebugBuild B \<longrightarrow> (\<forall>a. obj = Some a \<longrightarrow> IsMarked h a)"
  shows "map_option seen (ScanObjectVisit B h obj v s) =
         map_option seen (VisitObjectReferences B h obj v s)"
proof (cases obj)
  case None
  then show ?thesis
    by (simp add: ScanObjectVisit_null VisitObjectReferences_null)
next
  case (Some a)
  with marked have m: "kIsDebugBuild B \<longrightarrow> IsMarked h a"
    by simp
  show ?thesis
  proof (cases "GetClass h a")
    case None
    then show ?thesis
      by (simp add: Some ScanObjectVisit_no_class [OF m None] VisitObjectReferences_no_class)
  next
    case k: (Some k)
    show ?thesis
    proof (cases "java_lang_Class s = Some k")
      case True
      with meta have g: "GetJavaLangClass h = Some k"
        by simp
      have "ScanObjectVisit B h (Some a) v s =
          (if kIsDebugBuild B \<and> GetClass h k \<noteq> Some k then Some (Inl (CheckFailed, s))
           else VisitClassReferences B h (Some k) (Some a) v (count_kind B ClassObject s))"
        using ScanObjectVisit_class [OF m k True, of v] by (simp add: count_kind_def)
      then show ?thesis
        by (simp add: Some VisitObjectReferences_class [OF k g]
            VisitClassReferences_sim [OF simulates_count_kind] map_option_seen_carry)
    next
      case nm: False
      with meta have g: "GetJavaLangClass h \<noteq> Some k"
        by simp
      show ?thesis
      proof (cases "IsArrayClass h k")
        case True
        let ?c = "call_visitor v (Some a) (Some k) (ClassOffset B) False"
        have "ScanObjectVisit B h (Some a) v s =
            (if IsObjectArrayClass h k
             then Some (VisitObjectArrayReferences B h (Some a) v (count_kind B ArrayObject (?c s)))
             else Some (Inr (count_kind B ArrayObject (?c s))))"
          using ScanObjectVisit_array [OF m k nm True, of v]
          by (simp add: Let_def simulatesD [OF simulates_at [OF simulates_count_kind]])
            (simp add: count_kind_def)
        then show ?thesis
          by (simp add: Some VisitObjectReferences_array [OF k g True] Let_def
              VisitObjectArrayReferences_sim [OF simulates_at [OF simulates_count_kind]]
              seen_carry)
      next
        case False
        have shape: "ScanObjectVisit B h (Some a) v s =
            (case VisitOtherReferences B h (Some k) (Some a) v (count_kind B OtherObject s) of
               None \<Rightarrow> None
             | Some (Inl e) \<Rightarrow> Some (Inl e)
             | Some (Inr s2) \<Rightarrow>
                 if IsReferenceClass h k then Some (Inr (DelayReferenceReferent (Some a) s2))
                 else Some (Inr s2))"
          using ScanObjectVisit_other [OF m k nm False, of v] by (simp add: count_kind_def)
        note unfold = Some shape VisitObjectReferences_other [OF k g False]
          VisitOtherReferences_sim [OF simulates_count_kind]
        show ?thesis
        proof (cases "VisitOtherReferences B h (Some k) (Some a) v s")
          case None
          then show ?thesis
            by (simp add: unfold)
        next
          case r: (Some r)
          then show ?thesis
            by (cases r) (simp_all add: unfold DelayReferenceReferent_def carry_Inl seen_Inl)
        qed
      qed
    qed
  qed
qed

lemma ScanObjectVisit_delayed:
  assumes "ScanObjectVisit B h obj v s = Some (Inr s')"
  shows "delayed s' =
           delayed s @ (if reference_instance (java_lang_Class s) h obj then [obj] else [])"
proof (cases obj)
  case None
  with assms show ?thesis
    by (simp add: ScanObjectVisit_null)
next
  case (Some a)
  note run = assms [unfolded Some]
  note m = ScanObjectVisit_marked [OF run]
  show ?thesis
  proof (cases "GetClass h a")
    case None
    with run ScanObjectVisit_no_class [OF m None, of v s] show ?thesis
      by simp
  next
    case k: (Some k)
    from with_collector_fixed(5) [OF ScanObjectVisit_collector [OF run k]]
    show ?thesis
      by (simp add: Some k reference_instance_def DelayReferenceReferent_def)
  qed
qed

lemma ScanObjectVisit_counted:
  assumes run: "ScanObjectVisit B h (Some a) v s = Some r" and k: "GetClass h a = Some k"
    and marked: "kIsDebugBuild B \<longrightarrow> IsMarked h a"
    and meta: "kIsDebugBuild B \<and> java_lang_Class s = Some k \<longrightarrow> GetClass h k = Some k"
  shows "counts (final r) = counts (count_kind B (classify (java_lang_Class s) h k) s)"
proof (cases "java_lang_Class s = Some k")
  case True
  then have c: "classify (java_lang_Class s) h k = ClassObject"
    by (simp add: classify_def)
  let ?s1 = "count_kind B ClassObject s"
  from meta True have checked: "\<not> (kIsDebugBuild B \<and> GetClass h k \<noteq> Some k)"
    by auto
  have "ScanObjectVisit B h (Some a) v s = VisitClassReferences B h (Some k) (Some a) v ?s1"
    unfolding ScanObjectVisit_class [OF marked k True, of v] if_not_P [OF checked]
    by (simp add: count_kind_def)
  with run have "VisitClassReferences B h (Some k) (Some a) v ?s1 = Some r"
    by simp
  from counts_with_collector [OF frame_VisitClassReferences [OF this]] show ?thesis
    by (simp only: c)
next
  case nm: False
  show ?thesis
  proof (cases "IsArrayClass h k")
    case True
    with nm have c: "classify (java_lang_Class s) h k = ArrayObject"
      by (auto simp: classify_def)
    let ?s1 = "count_kind B ArrayObject s"
    let ?s2 = "call_visitor v (Some a) (Some k) (ClassOffset B) False ?s1"
    have shape: "ScanObjectVisit B h (Some a) v s =
        (if IsObjectArrayClass h k
         then Some (VisitObjectArrayReferences B h (Some a) v ?s2)
         else Some (Inr ?s2))"
      using ScanObjectVisit_array [OF marked k nm True, of v]
      by (simp add: Let_def count_kind_def)
    have "counts (final r) = counts ?s2"
    proof (cases "IsObjectArrayClass h k")
      case False
      with run shape show ?thesis by auto
    next
      case obj_array: True
      with run shape have arr: "VisitObjectArrayReferences B h (Some a) v ?s2 = r"
        by simp
      from counts_with_collector [OF frame_VisitObjectArrayReferences [of B h "Some a" v ?s2]]
      show ?thesis unfolding arr .
    qed
    then show ?thesis
      by (simp add: c)
  next
    case False
    with nm have c: "classify (java_lang_Class s) h k = OtherObject"
      by (auto simp: classify_def)
    let ?s1 = "count_kind B OtherObject s"
    have shape: "ScanObjectVisit B h (Some a) v s =
       (case VisitOtherReferences B h (Some k) (Some a) v ?s1 of
          None \<Rightarrow> None
        | Some (Inl e) \<Rightarrow> Some (Inl e)
        | Some (Inr s2) \<Rightarrow>
            if IsReferenceClass h k then Some (Inr (DelayReferenceReferent (Some a) s2))
            else Some (Inr s2))"
      using ScanObjectVisit_other [OF marked k nm False, of v]
      by (simp add: count_kind_def)
    from run shape obtain r0 where r0: "VisitOtherReferences B h (Some k) (Some a) v ?s1 = Some r0"
      by (cases "VisitOtherReferences B h (Some k) (Some a) v ?s1") auto
    have "counts (final r) = counts (final r0)"
      using run shape r0 by (cases r0) (auto split: if_splits)
    also from counts_with_collector [OF frame_VisitOtherReferences [OF r0]]
    have "counts (final r0) = counts ?s1" .
    finally show ?thesis
      by (simp only: c)
  qed
qed


lemma delayed_visit_all [simp]: "delayed (visit_all v cs s) = delayed s"
  by (induction cs arbitrary: s) (auto simp: call_visitor_def)


section \<open>The scanner writes nothing\<close>

lemma call_visitor_st_simps [simp]:
  "store (call_visitor_st v obj ref offset is_static m) = store m"
  "collector (call_visitor_st v obj ref offset is_static m) =
     call_visitor v obj ref offset is_static (collector m)"
  by (simp_all add: call_visitor_st_def)

lemma on_store_simps [simp]:
  "on_store h (Inl (e, s)) = Inl (e, \<lparr>store = h, collector = s\<rparr>)"
  "on_store h (Inr s) = Inr \<lparr>store = h, collector = s\<rparr>"
  by (simp_all add: on_store_def)

lemma reached_simps [simp]: "reached (Inl (e, m)) = m" "reached (Inr m) = m"
  by (simp_all add: reached_def)

lemma reached_on_store [simp]: "store (reached (on_store h r)) = h"
  by (cases r) auto

lemma machine_collapse [simp]: "\<lparr>store = store m, collector = collector m\<rparr> = m"
  by simp


























lemma seen_st_simps [simp]:
  "seen_st (Inl (e, m)) = Inl (e, visited (collector m))"
  "seen_st (Inr m) = Inr (visited (collector m))"
  by (simp_all add: seen_st_def)

lemma carry_st_simps [simp]:
  "carry_st \<phi> (Inl (e, m)) = Inl (e, on_collector \<phi> m)"
  "carry_st \<phi> (Inr m) = Inr (on_collector \<phi> m)"
  by (simp_all add: carry_st_def)

lemma on_collector_simps [simp]:
  "store (on_collector \<phi> m) = store m"
  "collector (on_collector \<phi> m) = \<phi> (collector m)"
  by (simp_all add: on_collector_def)


section \<open>The claims\<close>

text \<open>
  C1, as the code has it. Provided the collector's cached meta-class pointer is the
  runtime's and the scanned object passes the debug check of \<^verbatim>\<open>ScanObjectVisit\<close>, the
  two entry points end the same way for every object and every visitor: both return,
  both abort for the same reason, or neither returns, and the bookkeeping of the
  visitor is the same, so that the visitor has received the same invocations in the
  same order. \<^verbatim>\<open>VisitObjectReferences\<close> never invokes the deferred-reference hook;
  \<^verbatim>\<open>ScanObjectVisit\<close>, when it returns, has invoked it once, on the scanned object,
  if that object is an ordinary instance of a reference class, and not at all
  otherwise.
\<close>

theorem entry_points_agree:
  assumes "java_lang_Class s = GetJavaLangClass h"
    and "kIsDebugBuild B \<longrightarrow> (\<forall>a. obj = Some a \<longrightarrow> IsMarked h a)"
  shows "map_option seen (ScanObjectVisit B h obj visitor s) =
           map_option seen (VisitObjectReferences B h obj visitor s)
         \<and> (\<forall>r. VisitObjectReferences B h obj visitor s = Some r \<longrightarrow> delayed (final r) = delayed s)
         \<and> (\<forall>s'. ScanObjectVisit B h obj visitor s = Some (Inr s') \<longrightarrow>
               delayed s' =
                 delayed s @ (if reference_instance (java_lang_Class s) h obj then [obj] else []))"
proof (intro conjI allI impI)
  show "map_option seen (ScanObjectVisit B h obj visitor s) =
           map_option seen (VisitObjectReferences B h obj visitor s)"
    by (rule entry_points_seen [OF assms])
next
  fix r
  assume "VisitObjectReferences B h obj visitor s = Some r"
  from with_collector_fixed(5) [OF frame_VisitObjectReferences [OF this]]
  show "delayed (final r) = delayed s" .
next
  fix s'
  assume "ScanObjectVisit B h obj visitor s = Some (Inr s')"
  then show "delayed s' =
      delayed s @ (if reference_instance (java_lang_Class s) h obj then [obj] else [])"
    by (rule ScanObjectVisit_delayed)
qed

theorem entry_points_agree_witness:
  "java_lang_Class (demo_state []) = GetJavaLangClass demo_heap \<and>
   kIsDebugBuild demo_build \<and> IsMarked demo_heap 12 \<and>
   map_option seen (ScanObjectVisit demo_build demo_heap (Some 12) record_call (demo_state [])) =
     Some (Inr [(Some 12, Some 11, 0, False), (Some 12, Some 6, 8, False)]) \<and>
   map_option seen (VisitObjectReferences demo_build demo_heap (Some 12) record_call (demo_state [])) =
     Some (Inr [(Some 12, Some 11, 0, False), (Some 12, Some 6, 8, False)]) \<and>
   reference_instance (java_lang_Class (demo_state [])) demo_heap (Some 12)"
proof -
  have meta: "java_lang_Class (demo_state []) = GetJavaLangClass demo_heap"
    and marked: "kIsDebugBuild demo_build \<longrightarrow> (\<forall>a. Some 12 = Some a \<longrightarrow> IsMarked demo_heap a)"
    and ref: "reference_instance (java_lang_Class (demo_state [])) demo_heap (Some 12)"
    by (simp_all add: demo_state_def demo_heap_def reference_instance_def classify_def)
  have visit: "map_option seen
      (VisitObjectReferences demo_build demo_heap (Some 12) record_call (demo_state [])) =
     Some (Inr [(Some 12, Some 11, 0, False), (Some 12, Some 6, 8, False)])"
    by (simp add: demo_visit_12)
  from entry_points_agree [OF meta marked, of record_call, THEN conjunct1] visit
  have scan: "map_option seen
      (ScanObjectVisit demo_build demo_heap (Some 12) record_call (demo_state [])) =
     Some (Inr [(Some 12, Some 11, 0, False), (Some 12, Some 6, 8, False)])"
    by (simp only:)
  have debug: "kIsDebugBuild demo_build" and is_marked: "IsMarked demo_heap 12"
    by (simp_all add: demo_build_def demo_heap_def)
  from meta debug is_marked scan visit ref show ?thesis
    by (intro conjI)
qed

text \<open>
  C1 as stated fails: in the small heap the object at 12 is a marked instance of the
  reference class at 11. \<^verbatim>\<open>ScanObjectVisit\<close> hands it to the deferred-reference hook,
  \<^verbatim>\<open>VisitObjectReferences\<close> on the same object and state does not.
\<close>

theorem entry_points_hook_counterexample:
  "map_option (map_sum (apsnd delayed) delayed)
     (ScanObjectVisit demo_build demo_heap (Some 12) record_call (demo_state [])) =
     Some (Inr [Some 12]) \<and>
   map_option (map_sum (apsnd delayed) delayed)
     (VisitObjectReferences demo_build demo_heap (Some 12) record_call (demo_state [])) =
     Some (Inr []) \<and>
   java_lang_Class (demo_state []) = GetJavaLangClass demo_heap \<and> IsMarked demo_heap 12"
  by (simp add: demo_scan_12 demo_visit_12) (simp add: demo_state_def demo_heap_def)



text \<open>
  C3. When the encoding is not the walk-super sentinel, \<^verbatim>\<open>VisitFieldsReferences\<close>
  returns after invoking the visitor once for each set bit of the 32-bit value, from the
  most significant set bit to the least significant one. For the bit at position \<open>p\<close>
  the offset is \<^verbatim>\<open>CLASS_OFFSET_FROM_CLZ\<close> of its leading-zero count \<open>31 - p\<close>, the
  reference is the one read from the object at that offset, and \<open>is_static\<close> is passed
  on as it was received. The number of invocations is the number of set bits.
\<close>

theorem VisitFieldsReferences_bitmap_visits:
  assumes "ref_offsets \<noteq> CLASS_WALK_SUPER B"
  shows "VisitFieldsReferences B h (Some a) ref_offsets is_static visitor s =
           Some (Inr (visit_all visitor
             (map (\<lambda>p. (Some a, GetFieldObject h a (CLASS_OFFSET_FROM_CLZ B (31 - p)),
                        CLASS_OFFSET_FROM_CLZ B (31 - p), is_static))
                (rev (filter (bit ref_offsets) [0..<32]))) s))
         \<and> length (rev (filter (bit ref_offsets) [0..<32])) = card {p. bit ref_offsets p}"
  using assms
  by (simp add: VisitFieldsReferences_def VisitFieldsReferences_while_calls bitmap_calls_def
      set_bits_desc_def card_set_bits)

theorem VisitFieldsReferences_bitmap_visits_witness:
  "0x28000000 \<noteq> CLASS_WALK_SUPER demo_build \<and>
   map_option (map_sum (map_prod id visited) visited)
     (VisitFieldsReferences demo_build demo_heap (Some 4) 0x28000000 False record_call (demo_state [])) =
   Some (Inr [(Some 4, Some 5, 8, False), (Some 4, Some 6, 16, False)])"
  using VisitFieldsReferences_bitmap_visits
    [of "0x28000000" demo_build demo_heap 4 False record_call "demo_state []"]
  by (simp add: demo_bits demo_build_def demo_heap_def demo_state_def record_call_def
      call_visitor_def)

text \<open>
  C4. When the encoding is the walk-super sentinel, \<^verbatim>\<open>VisitFieldsReferences\<close> in
  instance mode starts at the class of the object and, when \<open>ks\<close> is the chain of
  classes from there up to the root and \<open>fss\<close> lists their reference instance fields,
  returns after visiting the fields of each class of the chain in turn, the class of
  the object first and the root last, and within one class in the order of their index.
  In static mode it visits the static reference fields of the object taken as a class,
  in the order of their index, and nothing else: the result is the same whatever the
  superclass of any class is. Each invocation reads the reference from the object at the
  offset of the field and passes \<open>is_static\<close> on.
\<close>

theorem VisitFieldsReferences_walk_super:
  "(super_chain h (GetClass h a) ks \<and> those (map (reference_fields h False) ks) = Some fss \<longrightarrow>
      VisitFieldsReferences B h (Some a) (CLASS_WALK_SUPER B) False visitor s =
        Some (Inr (visit_all visitor (concat (map (map (field_call h a False)) fss)) s)))
   \<and> (reference_fields h True a = Some fs \<longrightarrow>
      (\<forall>g. VisitFieldsReferences B (h\<lparr>GetSuperClass := g\<rparr>) (Some a) (CLASS_WALK_SUPER B) True
             visitor s =
           Some (Inr (visit_all visitor (map (field_call h a True) fs) s))))"
proof (intro conjI impI allI)
  assume chain: "super_chain h (GetClass h a) ks \<and>
    those (map (reference_fields h False) ks) = Some fss"
  have "VisitFieldsReferences_klasses h (Some a) False (GetClass h a) visitor s =
        Some (Inr (visit_all visitor (concat (map (map (field_call h a False)) fss)) s))"
    by (rule VisitFieldsReferences_klasses_chain [OF conjunct1 [OF chain] conjunct2 [OF chain]])
  then show "VisitFieldsReferences B h (Some a) (CLASS_WALK_SUPER B) False visitor s =
        Some (Inr (visit_all visitor (concat (map (map (field_call h a False)) fss)) s))"
    by (simp add: VisitFieldsReferences_def)
next
  fix g
  let ?h = "h\<lparr>GetSuperClass := g\<rparr>"
  assume "reference_fields h True a = Some fs"
  then have "reference_fields ?h True a = Some fs"
    by (simp add: reference_fields_def klass_field_def)
  moreover have "field_call ?h a True = field_call h a True"
    by (simp add: field_call_def fun_eq_iff)
  ultimately show "VisitFieldsReferences B ?h (Some a) (CLASS_WALK_SUPER B) True visitor s =
           Some (Inr (visit_all visitor (map (field_call h a True) fs) s))"
    by (simp add: VisitFieldsReferences_def AsClass_def
        VisitFieldsReferences_klasses_static [of ?h])
qed

theorem VisitFieldsReferences_walk_super_witness:
  "super_chain demo_heap (GetClass demo_heap 8) [7, 2] \<and>
   those (map (reference_fields demo_heap False) [7, 2]) = Some [[100, 101], [102]] \<and>
   map_option seen
     (VisitFieldsReferences demo_build demo_heap (Some 8) (CLASS_WALK_SUPER demo_build) False
        record_call (demo_state [])) =
     Some (Inr [(Some 8, None, 8, False), (Some 8, Some 5, 20, False), (Some 8, Some 7, 0, False)]) \<and>
   reference_fields demo_heap True 3 = Some [103] \<and>
   map_option seen
     (VisitFieldsReferences demo_build demo_heap (Some 3) (CLASS_WALK_SUPER demo_build) True
        record_call (demo_state [])) =
     Some (Inr [(Some 3, Some 4, 40, True)])"
  using VisitFieldsReferences_walk_super
    [where h = demo_heap and a = 8 and ks = "[7, 2]" and fss = "[[100, 101], [102]]"
      and B = demo_build and visitor = record_call and s = "demo_state []"]
    VisitFieldsReferences_walk_super
    [where h = demo_heap and a = 3 and fs = "[103]"
      and B = demo_build and visitor = record_call and s = "demo_state []",
      THEN conjunct2, rule_format, of "GetSuperClass demo_heap"]
    demo_chain demo_fields_7 demo_fields_3
  by (simp add: field_call_def call_visitor_def record_call_def demo_state_def)
    (simp add: demo_heap_def)

text \<open>
  C5. For an array object (its class is not the meta-class and is an array class) that
  passes the debug check, \<^verbatim>\<open>ScanObjectVisit\<close> returns after one invocation of the
  visitor for the class-pointer slot, with the class as referent, the offset
  \<^verbatim>\<open>ClassOffset()\<close> and the static flag false, followed, if the class is a class of
  object arrays, by one invocation per index \<open>i\<close> from 0 up to the length, in
  ascending order, with the element at \<open>i\<close>, the offset
  \<open>i * sizeof(mirror::Object*) + DataOffset(sizeof(mirror::Object*))\<close> computed in
  \<^verbatim>\<open>size_t\<close>, and the static flag false. With a visitor that counts its invocations,
  an object array of length \<open>N \<ge> 0\<close> gives \<open>N + 1\<close> invocations.
  \<^verbatim>\<open>VisitObjectReferences\<close> makes the same invocations. Whenever the element at \<open>i\<close>
  lies within the 32-bit address space, the offset computed in \<^verbatim>\<open>size_t\<close> is the
  natural number \<open>i * width + dataOffset\<close>: nothing wraps.
\<close>

theorem ScanObjectVisit_array_calls:
  assumes "GetClass h a = Some k" and "IsArrayClass h k"
    and "kIsDebugBuild B \<longrightarrow> IsMarked h a"
  shows "(java_lang_Class s \<noteq> Some k \<longrightarrow>
          ScanObjectVisit B h (Some a) visitor s =
            Some (Inr (visit_all visitor
              ((Some a, Some k, ClassOffset B, False) #
               (if IsObjectArrayClass h k
                then map (\<lambda>i. (Some a, GetWithoutChecks h a (of_nat i),
                                of_nat i * sizeof_Object_ptr B + DataOffset B (sizeof_Object_ptr B),
                                False))
                       [0..<nat (sint (GetLength h a))]
                else []))
              (if kCountScannedTypes B then s\<lparr>array_count := array_count s + 1\<rparr> else s))))
       \<and> (java_lang_Class t \<noteq> Some k \<and> IsObjectArrayClass h k \<and> 0 \<le> sint (GetLength h a) \<longrightarrow>
          map_option seen
            (ScanObjectVisit B h (Some a) (\<lambda>obj ref offset is_static n. Suc n) t) =
            Some (Inr (visited t + (nat (sint (GetLength h a)) + 1))))
       \<and> (GetJavaLangClass h \<noteq> Some k \<longrightarrow>
          VisitObjectReferences B h (Some a) visitor s =
            Some (Inr (visit_all visitor
              ((Some a, Some k, ClassOffset B, False) #
               (if IsObjectArrayClass h k
                then map (\<lambda>i. (Some a, GetWithoutChecks h a (of_nat i),
                                of_nat i * sizeof_Object_ptr B + DataOffset B (sizeof_Object_ptr B),
                                False))
                       [0..<nat (sint (GetLength h a))]
                else []))
              s)))
       \<and> (\<forall>i<nat (sint (GetLength h a)).
            i * unat (sizeof_Object_ptr B) + unat (DataOffset B (sizeof_Object_ptr B)) < 2 ^ 32 \<longrightarrow>
            unat (of_nat i * sizeof_Object_ptr B + DataOffset B (sizeof_Object_ptr B)) =
              i * unat (sizeof_Object_ptr B) + unat (DataOffset B (sizeof_Object_ptr B)))"
proof (intro conjI impI)
  assume nm: "java_lang_Class s \<noteq> Some k"
  show "ScanObjectVisit B h (Some a) visitor s =
            Some (Inr (visit_all visitor
              ((Some a, Some k, ClassOffset B, False) #
               (if IsObjectArrayClass h k
                then map (\<lambda>i. (Some a, GetWithoutChecks h a (of_nat i),
                                of_nat i * sizeof_Object_ptr B + DataOffset B (sizeof_Object_ptr B),
                                False))
                       [0..<nat (sint (GetLength h a))]
                else []))
              (if kCountScannedTypes B then s\<lparr>array_count := array_count s + 1\<rparr> else s)))"
    by (simp add: ScanObjectVisit_array [OF assms(3) assms(1) nm assms(2)] Let_def
        VisitObjectArrayReferences_calls element_call_def [abs_def])
next
  assume t: "java_lang_Class t \<noteq> Some k \<and> IsObjectArrayClass h k \<and> 0 \<le> sint (GetLength h a)"
  then have nm: "java_lang_Class t \<noteq> Some k" by simp
  show "map_option seen
            (ScanObjectVisit B h (Some a) (\<lambda>obj ref offset is_static n. Suc n) t) =
            Some (Inr (visited t + (nat (sint (GetLength h a)) + 1)))"
    using t
    by (simp add: ScanObjectVisit_array [OF assms(3) assms(1) nm assms(2)] Let_def
        VisitObjectArrayReferences_calls visit_all_count call_visitor_def)
next
  assume nm: "GetJavaLangClass h \<noteq> Some k"
  show "VisitObjectReferences B h (Some a) visitor s =
            Some (Inr (visit_all visitor
              ((Some a, Some k, ClassOffset B, False) #
               (if IsObjectArrayClass h k
                then map (\<lambda>i. (Some a, GetWithoutChecks h a (of_nat i),
                                of_nat i * sizeof_Object_ptr B + DataOffset B (sizeof_Object_ptr B),
                                False))
                       [0..<nat (sint (GetLength h a))]
                else []))
              s))"
    by (simp add: VisitObjectReferences_array [OF assms(1) nm assms(2)] Let_def
        VisitObjectArrayReferences_calls element_call_def [abs_def])
next
  show "\<forall>i<nat (sint (GetLength h a)).
            i * unat (sizeof_Object_ptr B) + unat (DataOffset B (sizeof_Object_ptr B)) < 2 ^ 32 \<longrightarrow>
            unat (of_nat i * sizeof_Object_ptr B + DataOffset B (sizeof_Object_ptr B)) =
              i * unat (sizeof_Object_ptr B) + unat (DataOffset B (sizeof_Object_ptr B))"
  proof (intro allI impI)
    fix i
    assume i: "i < nat (sint (GetLength h a))"
      and fits: "i * unat (sizeof_Object_ptr B) + unat (DataOffset B (sizeof_Object_ptr B)) < 2 ^ 32"
    have "sint (GetLength h a) < 2147483648"
      using sint_lt [of "GetLength h a"] by simp
    with i have "i < 2147483648" by linarith
    then have "i < 2 ^ 32" by simp
    then show "unat (of_nat i * sizeof_Object_ptr B + DataOffset B (sizeof_Object_ptr B)) =
              i * unat (sizeof_Object_ptr B) + unat (DataOffset B (sizeof_Object_ptr B))"
      using fits by (rule element_offset_unat)
  qed
qed

theorem ScanObjectVisit_array_calls_witness:
  "GetClass demo_heap 10 = Some 9 \<and> IsArrayClass demo_heap 9 \<and>
   kIsDebugBuild demo_build \<and> IsMarked demo_heap 10 \<and>
   java_lang_Class (demo_state []) \<noteq> Some 9 \<and> IsObjectArrayClass demo_heap 9 \<and>
   0 \<le> sint (GetLength demo_heap 10) \<and> GetJavaLangClass demo_heap \<noteq> Some 9 \<and>
   map_option seen (ScanObjectVisit demo_build demo_heap (Some 10) record_call (demo_state [])) =
     Some (Inr [(Some 10, Some 9, 0, False), (Some 10, Some 5, 12, False),
                (Some 10, None, 16, False), (Some 10, Some 6, 20, False)]) \<and>
   map_option seen
     (ScanObjectVisit demo_build demo_heap (Some 10) (\<lambda>obj ref offset is_static n. Suc n)
        (demo_state 0)) = Some (Inr 4)"
proof -
  have k: "GetClass demo_heap 10 = Some 9" and arr: "IsArrayClass demo_heap 9"
    and marked: "kIsDebugBuild demo_build \<longrightarrow> IsMarked demo_heap 10"
    and len: "GetLength demo_heap 10 = 3"
    by (simp_all add: demo_heap_def)
  note inst = ScanObjectVisit_array_calls [OF k arr marked, where s = "demo_state []"
      and t = "demo_state 0" and visitor = record_call]
  have debug: "kIsDebugBuild demo_build" and is_marked: "IsMarked demo_heap 10"
    by (simp_all add: demo_build_def demo_heap_def)
  show ?thesis
    using inst unfolding len demo_upt_3
    by (simp add: k arr debug is_marked len demo_state_def call_visitor_def record_call_def)
      (simp add: demo_heap_def demo_build_def)
qed

text \<open>
  C6. For an object whose class is the meta-class (and which passes the debug checks),
  \<^verbatim>\<open>ScanObjectVisit\<close> is one visit of the instance fields of the object, with the
  encoding of the meta-class and \<open>is_static\<close> false, followed, if that visit returns,
  by one visit of the static fields of the object taken as a class, with its own static
  encoding and \<open>is_static\<close> true. Recorded, the invocations of a scan that returns are
  those of the first visit followed by those of the second, each group once; all are
  invocations for the scanned object, the flag is false throughout the first group and
  true throughout the second.
\<close>

theorem ScanObjectVisit_meta_class:
  assumes "GetClass h a = Some k" and "java_lang_Class s = Some k"
    and "java_lang_Class t = Some k"
    and "kIsDebugBuild B \<longrightarrow> IsMarked h a \<and> GetClass h k = Some k"
  shows "ScanObjectVisit B h (Some a) visitor s =
           (case VisitFieldsReferences B h (Some a) (GetReferenceInstanceOffsets h k) False visitor
                   (if kCountScannedTypes B then s\<lparr>class_count := class_count s + 1\<rparr> else s) of
              None \<Rightarrow> None
            | Some (Inl e) \<Rightarrow> Some (Inl e)
            | Some (Inr s') \<Rightarrow>
                VisitFieldsReferences B h (Some a) (GetReferenceStaticOffsets h a) True visitor s')
         \<and> (\<forall>t'. ScanObjectVisit B h (Some a) record_call t = Some (Inr t') \<longrightarrow>
              (\<exists>inst stat.
                 visited t' = visited t @ inst @ stat \<and>
                 map_option seen
                   (VisitFieldsReferences B h (Some a) (GetReferenceInstanceOffsets h k) False
                      record_call (fresh (Some k))) = Some (Inr inst) \<and>
                 map_option seen
                   (VisitFieldsReferences B h (Some a) (GetReferenceStaticOffsets h a) True
                      record_call (fresh (Some k))) = Some (Inr stat) \<and>
                 (\<forall>c\<in>set inst. fst c = Some a \<and> \<not> snd (snd (snd c))) \<and>
                 (\<forall>c\<in>set stat. fst c = Some a \<and> snd (snd (snd c)))))"
proof -
  have marked: "kIsDebugBuild B \<longrightarrow> IsMarked h a"
    and self: "kIsDebugBuild B \<longrightarrow> GetClass h k = Some k"
    using assms(4) by auto
  have shape: "ScanObjectVisit B h (Some a) v u =
           (case VisitFieldsReferences B h (Some a) (GetReferenceInstanceOffsets h k) False v
                   (if kCountScannedTypes B then u\<lparr>class_count := class_count u + 1\<rparr> else u) of
              None \<Rightarrow> None
            | Some (Inl e) \<Rightarrow> Some (Inl e)
            | Some (Inr s') \<Rightarrow>
                VisitFieldsReferences B h (Some a) (GetReferenceStaticOffsets h a) True v s')"
    if "java_lang_Class u = Some k" for v :: "'c visitor" and u
    using self
    by (auto simp: ScanObjectVisit_class [OF marked assms(1) that] VisitClassReferences_def
        VisitInstanceFieldsReferences_def VisitStaticFieldsReferences_def AsClass_def
        split: option.splits sum.splits)
  have recorded: "\<exists>inst stat.
                 visited t' = visited t @ inst @ stat \<and>
                 map_option seen
                   (VisitFieldsReferences B h (Some a) (GetReferenceInstanceOffsets h k) False
                      record_call (fresh (Some k))) = Some (Inr inst) \<and>
                 map_option seen
                   (VisitFieldsReferences B h (Some a) (GetReferenceStaticOffsets h a) True
                      record_call (fresh (Some k))) = Some (Inr stat) \<and>
                 (\<forall>c\<in>set inst. fst c = Some a \<and> \<not> snd (snd (snd c))) \<and>
                 (\<forall>c\<in>set stat. fst c = Some a \<and> snd (snd (snd c)))"
    if run: "ScanObjectVisit B h (Some a) record_call t = Some (Inr t')" for t'
  proof -
    let ?t0 = "if kCountScannedTypes B then t\<lparr>class_count := class_count t + 1\<rparr> else t"
    from run shape [OF assms(3), of record_call] obtain t1 where
      first: "VisitFieldsReferences B h (Some a) (GetReferenceInstanceOffsets h k) False
                record_call ?t0 = Some (Inr t1)" and
      second: "VisitFieldsReferences B h (Some a) (GetReferenceStaticOffsets h a) True
                record_call t1 = Some (Inr t')"
      by (auto split: option.splits sum.splits)
    from VisitFieldsReferences_recorded [OF first, of "Some k"] obtain inst where
      inst: "visited t1 = visited ?t0 @ inst"
        "map_option seen
           (VisitFieldsReferences B h (Some a) (GetReferenceInstanceOffsets h k) False
              record_call (fresh (Some k))) = Some (Inr inst)"
        "\<forall>c\<in>set inst. fst c = Some a \<and> snd (snd (snd c)) = False"
      by blast
    from VisitFieldsReferences_recorded [OF second, of "Some k"] obtain stat where
      stat: "visited t' = visited t1 @ stat"
        "map_option seen
           (VisitFieldsReferences B h (Some a) (GetReferenceStaticOffsets h a) True
              record_call (fresh (Some k))) = Some (Inr stat)"
        "\<forall>c\<in>set stat. fst c = Some a \<and> snd (snd (snd c)) = True"
      by blast
    have "visited t' = visited t @ inst @ stat"
      using inst(1) stat(1) by simp
    with inst(2,3) stat(2,3) show ?thesis
      by auto
  qed
  from shape [OF assms(2), of visitor] recorded show ?thesis
    by blast
qed

theorem ScanObjectVisit_meta_class_witness:
  "GetClass demo_heap 3 = Some 1 \<and> java_lang_Class (demo_state []) = Some 1 \<and>
   kIsDebugBuild demo_build \<and> IsMarked demo_heap 3 \<and> GetClass demo_heap 1 = Some 1 \<and>
   ScanObjectVisit demo_build demo_heap (Some 3) record_call (demo_state []) =
     Some (Inr ((demo_state [(Some 3, Some 1, 0, False), (Some 3, Some 4, 40, True)])
                  \<lparr>class_count := 1\<rparr>)) \<and>
   map_option seen
     (VisitFieldsReferences demo_build demo_heap (Some 3) (GetReferenceInstanceOffsets demo_heap 1)
        False record_call (fresh (Some 1))) = Some (Inr [(Some 3, Some 1, 0, False)]) \<and>
   map_option seen
     (VisitFieldsReferences demo_build demo_heap (Some 3) (GetReferenceStaticOffsets demo_heap 3)
        True record_call (fresh (Some 1))) = Some (Inr [(Some 3, Some 4, 40, True)])"
proof -
  have k: "GetClass demo_heap 3 = Some 1" and m: "java_lang_Class (demo_state []) = Some 1"
    and d: "kIsDebugBuild demo_build \<longrightarrow> IsMarked demo_heap 3 \<and> GetClass demo_heap 1 = Some 1"
    by (simp_all add: demo_heap_def demo_state_def)
  have scan: "ScanObjectVisit demo_build demo_heap (Some 3) record_call (demo_state []) =
     Some (Inr ((demo_state [(Some 3, Some 1, 0, False), (Some 3, Some 4, 40, True)])
                  \<lparr>class_count := 1\<rparr>))"
    by code_simp
  have inst: "map_option seen
     (VisitFieldsReferences demo_build demo_heap (Some 3) (GetReferenceInstanceOffsets demo_heap 1)
        False record_call (fresh (Some 1))) = Some (Inr [(Some 3, Some 1, 0, False)])"
    by code_simp
  have stat: "map_option seen
     (VisitFieldsReferences demo_build demo_heap (Some 3) (GetReferenceStaticOffsets demo_heap 3)
        True record_call (fresh (Some 1))) = Some (Inr [(Some 3, Some 4, 40, True)])"
    by code_simp
  from ScanObjectVisit_meta_class [OF k m m d, of record_call, THEN conjunct2, rule_format, OF scan]
  obtain inst' stat' where
    "map_option seen
       (VisitFieldsReferences demo_build demo_heap (Some 3)
          (GetReferenceInstanceOffsets demo_heap 1) False record_call (fresh (Some 1))) =
       Some (Inr inst')"
    "map_option seen
       (VisitFieldsReferences demo_build demo_heap (Some 3)
          (GetReferenceStaticOffsets demo_heap 3) True record_call (fresh (Some 1))) =
       Some (Inr stat')"
    by blast
  have debug: "kIsDebugBuild demo_build" and is_marked: "IsMarked demo_heap 3"
    and self: "GetClass demo_heap 1 = Some 1"
    by (simp_all add: demo_build_def demo_heap_def)
  from k m debug is_marked self scan inst stat show ?thesis
    by (intro conjI)
qed

text \<open>
  C7. In a debug build \<^verbatim>\<open>ScanObjectVisit\<close> on an object that is not marked returns
  nothing to its caller: it dumps the heap spaces once and aborts with the fatal
  message for that object. The visitor has not been invoked, no counter has changed and
  no reference has been deferred.
\<close>

theorem ScanObjectVisit_unmarked_aborts:
  assumes "kIsDebugBuild B" and "\<not> IsMarked h a"
  shows "ScanObjectVisit B h (Some a) visitor s =
           Some (Inl (FatalScanningUnmarkedObject a,
                      s\<lparr>spaces_dumped := Suc (spaces_dumped s)\<rparr>))"
  using assms by (rule ScanObjectVisit_unmarked)

theorem ScanObjectVisit_unmarked_aborts_witness:
  "kIsDebugBuild demo_build \<and> \<not> IsMarked demo_heap 6 \<and>
   ScanObjectVisit demo_build demo_heap (Some 6) record_call (demo_state []) =
     Some (Inl (FatalScanningUnmarkedObject 6, (demo_state [])\<lparr>spaces_dumped := 1\<rparr>))"
  using ScanObjectVisit_unmarked_aborts [of demo_build demo_heap 6 record_call "demo_state []"]
  by (simp add: demo_build_def demo_heap_def demo_state_def)



text \<open>
  C9. For every encoding other than the sentinel the bitmap loop of
  \<^verbatim>\<open>VisitFieldsReferences\<close> terminates, for any object pointer and visitor. With a
  visitor that counts its invocations, hence the iterations, the loop makes as many
  iterations as the value has set bits, which is at most 32. One iteration on a nonzero
  value clears exactly its most significant set bit: the new value is strictly smaller,
  and its set bits are those of the old value below that position.
\<close>

theorem VisitFieldsReferences_bitmap_loop_terminates:
  assumes "ref_offsets \<noteq> CLASS_WALK_SUPER B"
  shows "(\<exists>r. VisitFieldsReferences B h obj ref_offsets is_static visitor s = Some r)
         \<and> VisitFieldsReferences B h (Some a) ref_offsets is_static
             (\<lambda>obj ref offset is_static n. Suc n) t =
             Some (Inr (t\<lparr>visited := visited t + card {p. bit ref_offsets p}\<rparr>))
         \<and> card {p. bit ref_offsets p} \<le> 32
         \<and> (ref_offsets \<noteq> 0 \<longrightarrow>
              ref_offsets AND NOT (drop_bit (CLZ ref_offsets) CLASS_HIGH_BIT) < ref_offsets
              \<and> bit ref_offsets (31 - CLZ ref_offsets)
              \<and> (\<forall>k. bit (ref_offsets AND NOT (drop_bit (CLZ ref_offsets) CLASS_HIGH_BIT)) k
                     \<longleftrightarrow> bit ref_offsets k \<and> k < 31 - CLZ ref_offsets))"
proof (intro conjI impI allI)
  show "\<exists>r. VisitFieldsReferences B h obj ref_offsets is_static visitor s = Some r"
    using assms by (simp add: VisitFieldsReferences_def)
  show "VisitFieldsReferences B h (Some a) ref_offsets is_static
          (\<lambda>obj ref offset is_static n. Suc n) t =
        Some (Inr (t\<lparr>visited := visited t + card {p. bit ref_offsets p}\<rparr>))"
    using assms
    by (simp add: VisitFieldsReferences_def VisitFieldsReferences_while_calls visit_all_count
        bitmap_calls_def set_bits_desc_def card_set_bits)
  show "card {p. bit ref_offsets p} \<le> 32"
    using length_filter_le [of "bit ref_offsets" "[0..<32]"] by (simp add: card_set_bits)
next
  assume nz: "ref_offsets \<noteq> 0"
  show "ref_offsets AND NOT (drop_bit (CLZ ref_offsets) CLASS_HIGH_BIT) < ref_offsets"
    by (rule clear_top_less [OF nz])
  show "bit ref_offsets (31 - CLZ ref_offsets)"
    by (rule CLZ_top(2) [OF nz])
  fix k
  show "bit (ref_offsets AND NOT (drop_bit (CLZ ref_offsets) CLASS_HIGH_BIT)) k
          \<longleftrightarrow> bit ref_offsets k \<and> k < 31 - CLZ ref_offsets"
    using CLZ_top(3) [OF nz, of k]
    by (cases "k < 31 - CLZ ref_offsets") (auto simp: bit_clear_top [OF nz] not_less_iff_gr_or_eq)
qed

theorem VisitFieldsReferences_bitmap_loop_terminates_witness:
  "0x28000000 \<noteq> CLASS_WALK_SUPER demo_build \<and> (0x28000000 :: uint32_t) \<noteq> 0 \<and>
   VisitFieldsReferences demo_build demo_heap (Some 4) 0x28000000 False
     (\<lambda>obj ref offset is_static n. Suc n) (demo_state 0) =
   Some (Inr (demo_state 2)) \<and>
   (0x28000000 :: uint32_t) AND NOT (drop_bit (CLZ 0x28000000) CLASS_HIGH_BIT) < 0x28000000"
  using VisitFieldsReferences_bitmap_loop_terminates
    [of "0x28000000" demo_build demo_heap "Some 4" False record_call "demo_state []" 4
        "demo_state 0", unfolded demo_card]
  by (simp add: demo_build_def demo_state_def)

text \<open>
  C10, as the code has it. When \<^verbatim>\<open>kCountScannedTypes\<close> is set, every call of
  \<^verbatim>\<open>ScanObjectVisit\<close> on an object that has a class and passes the checks of a debug
  build (the object is marked and, if its class is the meta-class, the class of the
  meta-class is the meta-class) increments exactly one of \<^verbatim>\<open>class_count_\<close>,
  \<^verbatim>\<open>array_count_\<close> and \<^verbatim>\<open>other_count_\<close> by one and leaves the other two as they
  were, whether the call then returns or aborts: the counter is the one given by the
  kind of the object, which is one of three for every object, and the call is the visit
  of that kind started from the state with that counter incremented. A call that the
  debug check of an unmarked object stops increments none. \<^verbatim>\<open>VisitObjectReferences\<close>
  leaves all three counters as they were, however it ends.
\<close>

theorem ScanObjectVisit_counts_one_kind:
  "(kCountScannedTypes B \<and> GetClass h a = Some k \<and>
    (kIsDebugBuild B \<longrightarrow>
       IsMarked h a \<and> (java_lang_Class s = Some k \<longrightarrow> GetClass h k = Some k)) \<longrightarrow>
      (\<forall>r. ScanObjectVisit B h (Some a) visitor s = Some r \<longrightarrow>
         counts (final r) =
           (case classify (java_lang_Class s) h k of
              ClassObject \<Rightarrow> (class_count s + 1, array_count s, other_count s)
            | ArrayObject \<Rightarrow> (class_count s, array_count s + 1, other_count s)
            | OtherObject \<Rightarrow> (class_count s, array_count s, other_count s + 1)))
      \<and> ScanObjectVisit B h (Some a) visitor s =
          (case classify (java_lang_Class s) h k of
             ClassObject \<Rightarrow>
               VisitClassReferences B h (Some k) (Some a) visitor
                 (s\<lparr>class_count := class_count s + 1\<rparr>)
           | ArrayObject \<Rightarrow>
               (let s2 = call_visitor visitor (Some a) (Some k) (ClassOffset B) False
                           (s\<lparr>array_count := array_count s + 1\<rparr>)
                in if IsObjectArrayClass h k
                   then Some (VisitObjectArrayReferences B h (Some a) visitor s2)
                   else Some (Inr s2))
           | OtherObject \<Rightarrow>
               (case VisitOtherReferences B h (Some k) (Some a) visitor
                       (s\<lparr>other_count := other_count s + 1\<rparr>) of
                  None \<Rightarrow> None
                | Some (Inl e) \<Rightarrow> Some (Inl e)
                | Some (Inr s2) \<Rightarrow>
                    Some (Inr (if IsReferenceClass h k
                               then DelayReferenceReferent (Some a) s2 else s2)))))
   \<and> (kIsDebugBuild B \<and> \<not> IsMarked h a \<longrightarrow>
        (\<exists>r. ScanObjectVisit B h (Some a) visitor s = Some r \<and> counts (final r) = counts s))
   \<and> (\<forall>r. VisitObjectReferences B h obj visitor s = Some r \<longrightarrow> counts (final r) = counts s)"
proof (intro conjI allI impI)
  fix r
  assume "VisitObjectReferences B h obj visitor s = Some r"
  from frame_VisitObjectReferences [OF this] show "counts (final r) = counts s"
    by (rule counts_with_collector)
next
  assume "kIsDebugBuild B \<and> \<not> IsMarked h a"
  then have "ScanObjectVisit B h (Some a) visitor s =
      Some (Inl (FatalScanningUnmarkedObject a, s\<lparr>spaces_dumped := Suc (spaces_dumped s)\<rparr>))"
    by (simp add: ScanObjectVisit_unmarked)
  then show "\<exists>r. ScanObjectVisit B h (Some a) visitor s = Some r \<and> counts (final r) = counts s"
    by (simp add: counts_def)
next
  fix r
  assume pre: "kCountScannedTypes B \<and> GetClass h a = Some k \<and>
    (kIsDebugBuild B \<longrightarrow>
       IsMarked h a \<and> (java_lang_Class s = Some k \<longrightarrow> GetClass h k = Some k))"
    and run: "ScanObjectVisit B h (Some a) visitor s = Some r"
  from pre have k: "GetClass h a = Some k" and marked: "kIsDebugBuild B \<longrightarrow> IsMarked h a"
    and meta: "kIsDebugBuild B \<and> java_lang_Class s = Some k \<longrightarrow> GetClass h k = Some k"
    and counting: "kCountScannedTypes B"
    by auto
  from ScanObjectVisit_counted [OF run k marked meta] counting
  show "counts (final r) =
           (case classify (java_lang_Class s) h k of
              ClassObject \<Rightarrow> (class_count s + 1, array_count s, other_count s)
            | ArrayObject \<Rightarrow> (class_count s, array_count s + 1, other_count s)
            | OtherObject \<Rightarrow> (class_count s, array_count s, other_count s + 1))"
    by (cases "classify (java_lang_Class s) h k") (simp_all add: counts_def count_kind_def)
next
  assume pre: "kCountScannedTypes B \<and> GetClass h a = Some k \<and>
    (kIsDebugBuild B \<longrightarrow>
       IsMarked h a \<and> (java_lang_Class s = Some k \<longrightarrow> GetClass h k = Some k))"
  then have k: "GetClass h a = Some k" and marked: "kIsDebugBuild B \<longrightarrow> IsMarked h a"
    and meta: "kIsDebugBuild B \<and> java_lang_Class s = Some k \<longrightarrow> GetClass h k = Some k"
    and counting: "kCountScannedTypes B"
    by auto
  show "ScanObjectVisit B h (Some a) visitor s =
          (case classify (java_lang_Class s) h k of
             ClassObject \<Rightarrow>
               VisitClassReferences B h (Some k) (Some a) visitor
                 (s\<lparr>class_count := class_count s + 1\<rparr>)
           | ArrayObject \<Rightarrow>
               (let s2 = call_visitor visitor (Some a) (Some k) (ClassOffset B) False
                           (s\<lparr>array_count := array_count s + 1\<rparr>)
                in if IsObjectArrayClass h k
                   then Some (VisitObjectArrayReferences B h (Some a) visitor s2)
                   else Some (Inr s2))
           | OtherObject \<Rightarrow>
               (case VisitOtherReferences B h (Some k) (Some a) visitor
                       (s\<lparr>other_count := other_count s + 1\<rparr>) of
                  None \<Rightarrow> None
                | Some (Inl e) \<Rightarrow> Some (Inl e)
                | Some (Inr s2) \<Rightarrow>
                    Some (Inr (if IsReferenceClass h k
                               then DelayReferenceReferent (Some a) s2 else s2))))"
  proof (cases "java_lang_Class s = Some k")
    case True
    from meta True have checked: "\<not> (kIsDebugBuild B \<and> GetClass h k \<noteq> Some k)"
      by auto
    show ?thesis
      unfolding ScanObjectVisit_class [OF marked k True, of visitor] if_not_P [OF checked]
      using counting True by (simp add: classify_def)
  next
    case nm: False
    show ?thesis
    proof (cases "IsArrayClass h k")
      case True
      show ?thesis
        unfolding ScanObjectVisit_array [OF marked k nm True, of visitor]
        using counting nm True by (auto simp: classify_def Let_def)
    next
      case False
      show ?thesis
        unfolding ScanObjectVisit_other [OF marked k nm False, of visitor]
        using counting nm False
        by (auto simp: classify_def split: option.splits sum.splits)
    qed
  qed
qed

theorem ScanObjectVisit_counts_one_kind_witness:
  "kCountScannedTypes demo_build \<and> GetClass demo_heap 4 = Some 3 \<and>
   kIsDebugBuild demo_build \<and> IsMarked demo_heap 4 \<and>
   java_lang_Class (demo_state ([]::call list)) \<noteq> Some 3 \<and>
   map_option (map_sum (apsnd counts) counts)
     (ScanObjectVisit demo_build demo_heap (Some 4) record_call (demo_state [])) =
     Some (Inr (0, 0, 1)) \<and>
   map_option (map_sum (apsnd counts) counts)
     (VisitObjectReferences demo_build demo_heap (Some 12) record_call (demo_state [])) =
     Some (Inr (0, 0, 0))"
proof -
  have c: "kCountScannedTypes demo_build" and k: "GetClass demo_heap 4 = Some 3"
    and d: "kIsDebugBuild demo_build" and m: "IsMarked demo_heap 4"
    and j: "java_lang_Class (demo_state ([]::call list)) \<noteq> Some 3"
    by (simp_all add: demo_build_def demo_heap_def demo_state_def)
  have pre: "kCountScannedTypes demo_build \<and> GetClass demo_heap 4 = Some 3 \<and>
    (kIsDebugBuild demo_build \<longrightarrow>
       IsMarked demo_heap 4 \<and>
       (java_lang_Class (demo_state ([]::call list)) = Some 3 \<longrightarrow> GetClass demo_heap 3 = Some 3))"
    using c k m j by simp
  from ScanObjectVisit_counts_one_kind
    [where B = demo_build and h = demo_heap and a = 4 and k = 3 and s = "demo_state []"
      and visitor = record_call and obj = "Some 12",
      THEN conjunct1, rule_format, OF pre, THEN conjunct1, rule_format, OF demo_scan_4]
  have scan: "map_option (map_sum (apsnd counts) counts)
     (ScanObjectVisit demo_build demo_heap (Some 4) record_call (demo_state [])) =
     Some (Inr (0, 0, 1))"
    by (simp add: demo_scan_4 classify_def counts_def)
  have visit: "map_option (map_sum (apsnd counts) counts)
     (VisitObjectReferences demo_build demo_heap (Some 12) record_call (demo_state [])) =
     Some (Inr (0, 0, 0))"
    by (simp add: demo_visit_12 counts_def)
  from c k d m j scan visit show ?thesis
    by (intro conjI)
qed

text \<open>
  C10 as stated fails: in the small heap, with counting enabled, the call of
  \<^verbatim>\<open>ScanObjectVisit\<close> on the unmarked object at 6 aborts with all three counters as
  they were.
\<close>

theorem ScanObjectVisit_unmarked_counts_counterexample:
  "kCountScannedTypes demo_build \<and> kIsDebugBuild demo_build \<and>
   GetClass demo_heap 6 = Some 2 \<and>
   counts (demo_state ([]::call list)) = (0, 0, 0) \<and>
   map_option (map_sum (apsnd counts) counts)
     (ScanObjectVisit demo_build demo_heap (Some 6) record_call (demo_state [])) =
     Some (Inl (FatalScanningUnmarkedObject 6, (0, 0, 0)))"
  by (simp add: ScanObjectVisit_unmarked demo_build_def demo_heap_def counts_def)
    (simp add: demo_state_def)

end
